theory Spec2Isabelle
  imports Main "HOL-Library.Sublist" "HOL-Library.Word"
begin

unbundle bit_operations_syntax

section \<open>Outcomes and errors\<close>

text \<open>
  How a call ends: it returns, it throws, or (for a loop that takes fuel) it is still
  running. Where the thrown value matters it is an \<open>error\<close>: \<open>Error text\<close> is
  \<open>new Error(text)\<close>, the others are the host's.
\<close>

datatype outcome = Returned | Threw | OutOfFuel

datatype error = Error string | TypeError | RangeError | InvalidCharacterError

section \<open>The polyfill event emitter (\<open>EventEmitterImpl\<close> in \<open>src/platform.ts\<close>)\<close>

text \<open>
  Event names are strings. A listener is a function value; what matters about it is its
  identity (the registry is a \<open>Set\<close>, compared by reference) and what it does when called.
  \<^item> \<open>Fn n\<close> is a function of the caller, with identity \<open>n\<close>. Its behaviour is given by a
    table \<open>body n args\<close>: the commands it issues on the emitter, in order.
  \<^item> \<open>Wrapped k ev l\<close> is the closure \<open>wrapped\<close> that the \<open>k\<close>-th call of \<open>once\<close> creates; it
    captures the event and the listener handed to \<open>once\<close>. Every call of \<open>once\<close> creates a
    new closure, hence the serial number \<open>k\<close>.
\<close>

type_synonym event = string

datatype listener = Fn nat | Wrapped nat event listener

datatype 'v cmd =
    Emit event "'v list"
  | On event nat
  | Once event nat
  | RemoveListener event nat
  | Throw

text \<open>
  The fields \<open>deliveryQueue\<close> and \<open>listeners\<close> are the two fields of the class; a \<open>Set\<close> is a
  list without duplicates in insertion order, which is the order \<open>for ... of\<close> visits it in.
  \<open>closures\<close> counts the \<open>wrapped\<close> closures created so far. The last four fields are
  observations and change nothing: \<open>pushed\<close> lists every entry ever pushed on a delivery
  queue, \<open>delivered\<close> every entry the loop of \<open>emit\<close> has taken from the queue and invoked,
  \<open>called\<close> every call of a function of the caller (with its arguments), \<open>drains\<close> the
  number of times the loop of \<open>emit\<close> has been entered.
\<close>

record 'v emitter =
  deliveryQueue :: "(listener \<times> 'v list) list option"
  listeners :: "event \<Rightarrow> listener list option"
  closures :: nat
  pushed :: "(listener \<times> 'v list) list"
  delivered :: "(listener \<times> 'v list) list"
  called :: "(nat \<times> 'v list) list"
  drains :: nat

definition new_emitter :: "'v emitter" where
  "new_emitter = \<lparr> deliveryQueue = None, listeners = (\<lambda>_. None), closures = 0,
                    pushed = [], delivered = [], called = [], drains = 0 \<rparr>"

definition set_add :: "'a list \<Rightarrow> 'a \<Rightarrow> 'a list" where
  "set_add xs x = (if x \<in> set xs then xs else xs @ [x])"

definition set_delete :: "'a list \<Rightarrow> 'a \<Rightarrow> 'a list" where
  "set_delete xs x = removeAll x xs"

definition on :: "event \<Rightarrow> listener \<Rightarrow> 'v emitter \<Rightarrow> 'v emitter" where
  "on ev l s =
     (case listeners s ev of
        None \<Rightarrow> s\<lparr>listeners := (listeners s)(ev \<mapsto> set_add [] l)\<rparr>
      | Some xs \<Rightarrow> s\<lparr>listeners := (listeners s)(ev \<mapsto> set_add xs l)\<rparr>)"

definition addListener :: "event \<Rightarrow> listener \<Rightarrow> 'v emitter \<Rightarrow> 'v emitter" where
  "addListener ev l s = on ev l s"

definition once :: "event \<Rightarrow> listener \<Rightarrow> 'v emitter \<Rightarrow> 'v emitter" where
  "once ev l s =
     addListener ev (Wrapped (closures s) ev l) (s\<lparr>closures := Suc (closures s)\<rparr>)"

definition removeListener :: "event \<Rightarrow> listener \<Rightarrow> 'v emitter \<Rightarrow> 'v emitter" where
  "removeListener ev l s =
     (case listeners s ev of
        None \<Rightarrow> s
      | Some xs \<Rightarrow> s\<lparr>listeners := (listeners s)(ev \<mapsto> set_delete xs l)\<rparr>)"

definition listenerCount :: "event \<Rightarrow> 'v emitter \<Rightarrow> nat" where
  "listenerCount ev s = (case listeners s ev of None \<Rightarrow> 0 | Some xs \<Rightarrow> length xs)"

text \<open>
  \<open>emit\<close>, its delivery loop (\<open>drain\<close>, the \<open>for\<close> loop over the queue by index), the call of a
  listener and the run of a caller's function body call one another. A listener may emit
  again and so keep the loop running forever, so the functions take fuel: every iteration
  of the loop costs one unit, and \<open>OutOfFuel\<close> says that the loop was still running. An
  exception (\<open>Threw\<close>) leaves every function at once, the state as it is at that moment; in
  particular \<open>emit\<close> does not reset the queue then. Reading \<open>length\<close> of an absent queue
  would be a \<open>TypeError\<close>. The value \<open>emit\<close> returns is always \<open>true\<close> and is left out.
\<close>

function emit :: "nat \<Rightarrow> (nat \<Rightarrow> 'v list \<Rightarrow> 'v cmd list) \<Rightarrow> event \<Rightarrow> 'v list \<Rightarrow> 'v emitter
               \<Rightarrow> outcome \<times> 'v emitter"
and drain :: "nat \<Rightarrow> (nat \<Rightarrow> 'v list \<Rightarrow> 'v cmd list) \<Rightarrow> nat \<Rightarrow> 'v emitter
               \<Rightarrow> outcome \<times> 'v emitter"
and call :: "nat \<Rightarrow> (nat \<Rightarrow> 'v list \<Rightarrow> 'v cmd list) \<Rightarrow> listener \<Rightarrow> 'v list \<Rightarrow> 'v emitter
               \<Rightarrow> outcome \<times> 'v emitter"
and run :: "nat \<Rightarrow> (nat \<Rightarrow> 'v list \<Rightarrow> 'v cmd list) \<Rightarrow> 'v cmd list \<Rightarrow> 'v emitter
               \<Rightarrow> outcome \<times> 'v emitter"
where
  "emit fuel body ev args s =
     (case listeners s ev of
        None \<Rightarrow> (Returned, s)
      | Some xs \<Rightarrow>
          if xs = [] then (Returned, s)
          else
            let dispatch = (deliveryQueue s = None);
                q = (case deliveryQueue s of None \<Rightarrow> [] | Some q0 \<Rightarrow> q0);
                entries = map (\<lambda>l. (l, args)) xs;
                s1 = s\<lparr>deliveryQueue := Some (q @ entries), pushed := pushed s @ entries\<rparr>
            in if \<not> dispatch then (Returned, s1)
               else (case drain fuel body 0 (s1\<lparr>drains := Suc (drains s1)\<rparr>) of
                       (Returned, s2) \<Rightarrow> (Returned, s2\<lparr>deliveryQueue := None\<rparr>)
                     | (Threw, s2) \<Rightarrow> (Threw, s2)
                     | (OutOfFuel, s2) \<Rightarrow> (OutOfFuel, s2)))"
| "drain 0 body i s =
     (case deliveryQueue s of
        None \<Rightarrow> (Threw, s)
      | Some q \<Rightarrow> if i < length q then (OutOfFuel, s) else (Returned, s))"
| "drain (Suc fuel) body i s =
     (case deliveryQueue s of
        None \<Rightarrow> (Threw, s)
      | Some q \<Rightarrow>
          if i < length q then
            (case call fuel body (fst (q ! i)) (snd (q ! i))
                    (s\<lparr>delivered := delivered s @ [q ! i]\<rparr>) of
               (Returned, s') \<Rightarrow> drain fuel body (Suc i) s'
             | (Threw, s') \<Rightarrow> (Threw, s')
             | (OutOfFuel, s') \<Rightarrow> (OutOfFuel, s'))
          else (Returned, s))"
| "call fuel body (Fn f) args s =
     run fuel body (body f args) (s\<lparr>called := called s @ [(f, args)]\<rparr>)"
| "call fuel body (Wrapped k ev l) args s =
     call fuel body l args (removeListener ev (Wrapped k ev l) s)"
| "run fuel body [] s = (Returned, s)"
| "run fuel body (Emit ev args # cs) s =
     (case emit fuel body ev args s of
        (Returned, s') \<Rightarrow> run fuel body cs s'
      | (Threw, s') \<Rightarrow> (Threw, s')
      | (OutOfFuel, s') \<Rightarrow> (OutOfFuel, s'))"
| "run fuel body (On ev f # cs) s = run fuel body cs (on ev (Fn f) s)"
| "run fuel body (Once ev f # cs) s = run fuel body cs (once ev (Fn f) s)"
| "run fuel body (RemoveListener ev f # cs) s = run fuel body cs (removeListener ev (Fn f) s)"
| "run fuel body (Throw # cs) s = (Threw, s)"
  by pat_completeness auto
termination
  by (relation "inv_image (less_than <*lex*> less_than <*lex*> less_than)
       (\<lambda>x. case x of
          Inl (Inl (fuel, body, ev, args, s)) \<Rightarrow> (fuel, 1::nat, 0::nat)
        | Inl (Inr (fuel, body, i, s)) \<Rightarrow> (fuel, 0, 0)
        | Inr (Inl (fuel, body, l, args, s)) \<Rightarrow> (fuel, 3, size l)
        | Inr (Inr (fuel, body, cs, s)) \<Rightarrow> (fuel, 2, length cs))") auto

declare emit.simps [simp del]








definition reemitting :: "event \<Rightarrow> 'v list \<Rightarrow> nat \<Rightarrow> 'v list \<Rightarrow> 'v cmd list" where
  "reemitting ev args' f args = (if f = 1 then [Emit ev args'] else [])"


section \<open>The deferred-task scheduler (\<open>makeWaitForNextTask\<close> in \<open>src/platform.ts\<close>)\<close>

text \<open>
  On Node 11 and newer \<open>makeWaitForNextTask\<close> returns the host's \<open>setImmediate\<close>; this is
  the scheduler it builds on Node 10 and older: the closure state \<open>spinning\<close>, \<open>callbacks\<close>, and the
  number of \<open>setImmediate(loop)\<close> requests the host has not run yet (\<open>immediates\<close>).
  A callback is untrusted code: \<open>Callback n cs t\<close> has identity \<open>n\<close>, submits the callbacks
  \<open>cs\<close> to the same scheduler when it runs, and then throws iff \<open>t\<close>.
  \<open>invoked\<close> and \<open>uncaught\<close> are observations: the callbacks invoked so far, in order, and
  the number of exceptions that left \<open>loop\<close>.
\<close>

datatype callback = Callback nat "callback list" bool

fun submits :: "callback \<Rightarrow> callback list" where
  "submits (Callback n cs t) = cs"

fun throws :: "callback \<Rightarrow> bool" where
  "throws (Callback n cs t) = t"

record scheduler =
  spinning :: bool
  callbacks :: "callback list"
  immediates :: nat
  invoked :: "callback list"
  uncaught :: nat

text \<open>The state right after \<open>makeWaitForNextTask()\<close> has returned its function.\<close>

definition makeWaitForNextTask :: scheduler where
  "makeWaitForNextTask = \<lparr> spinning = False, callbacks = [], immediates = 0,
                            invoked = [], uncaught = 0 \<rparr>"

text \<open>The function that \<open>makeWaitForNextTask\<close> returns.\<close>

definition waitForNextTask :: "callback \<Rightarrow> scheduler \<Rightarrow> scheduler" where
  "waitForNextTask cb s =
     (let s1 = s\<lparr>callbacks := callbacks s @ [cb]\<rparr>
      in if \<not> spinning s1
         then s1\<lparr>spinning := True, immediates := Suc (immediates s1)\<rparr>
         else s1)"

text \<open>
  \<open>loop\<close>: take the first callback; none: stop spinning; otherwise ask for the next run of
  \<open>loop\<close> and only then call the callback.
\<close>

definition loop :: "scheduler \<Rightarrow> outcome \<times> scheduler" where
  "loop s =
     (case callbacks s of
        [] \<Rightarrow> (Returned, s\<lparr>spinning := False\<rparr>)
      | cb # rest \<Rightarrow>
          let s1 = s\<lparr>callbacks := rest\<rparr>;
              s2 = s1\<lparr>immediates := Suc (immediates s1)\<rparr>;
              s3 = s2\<lparr>invoked := invoked s2 @ [cb]\<rparr>;
              s4 = foldl (\<lambda>t c. waitForNextTask c t) s3 (submits cb)
          in (if throws cb then Threw else Returned, s4))"

text \<open>
  One turn of the host: it runs one pending \<open>setImmediate(loop)\<close>, if there is one. An
  exception that leaves \<open>loop\<close> reaches the host, which counts it and goes on.
\<close>

definition turn :: "scheduler \<Rightarrow> scheduler" where
  "turn s =
     (if immediates s = 0 then s
      else case loop (s\<lparr>immediates := immediates s - 1\<rparr>) of
             (Returned, s') \<Rightarrow> s'
           | (Threw, s') \<Rightarrow> s'\<lparr>uncaught := Suc (uncaught s')\<rparr>
           | (OutOfFuel, s') \<Rightarrow> s')"

fun turns :: "nat \<Rightarrow> scheduler \<Rightarrow> scheduler" where
  "turns 0 s = s"
| "turns (Suc n) s = turns n (turn s)"

datatype host_event = Submit callback | Turn

fun host_step :: "scheduler \<Rightarrow> host_event \<Rightarrow> scheduler" where
  "host_step s (Submit cb) = waitForNextTask cb s"
| "host_step s Turn = turn s"

text \<open>
  What the history itself says, without the scheduler: the callbacks the caller submitted,
  in order; and the queue the spec describes, which takes a submitted callback at its end
  and on every turn runs the callback at its front, if there is one (\<open>fired\<close> lists the
  callbacks run so far, \<open>queued\<close> those waiting; a callback that runs submits its own
  callbacks at that moment).
\<close>

fun submissions :: "host_event list \<Rightarrow> callback list" where
  "submissions [] = []"
| "submissions (Submit cb # evs) = cb # submissions evs"
| "submissions (Turn # evs) = submissions evs"

fun fifo_step :: "callback list \<times> callback list \<Rightarrow> host_event \<Rightarrow> callback list \<times> callback list" where
  "fifo_step (fired, queued) (Submit cb) = (fired, queued @ [cb])"
| "fifo_step (fired, queued) Turn =
     (case queued of
        [] \<Rightarrow> (fired, [])
      | cb # rest \<Rightarrow> (fired @ [cb], rest @ submits cb))"

text \<open>Between turns the loop is requested exactly when the scheduler is spinning.\<close>

definition armed :: "scheduler \<Rightarrow> bool" where
  "armed s \<longleftrightarrow> immediates s = (if spinning s then 1 else 0) \<and>
               (spinning s \<or> callbacks s = []) \<and>
               uncaught s = length (filter throws (invoked s))"

section \<open>The message transport (\<open>WebSocketTransport\<close> in \<open>src/platform.ts\<close>)\<close>

text \<open>
  The transport holds a socket (\<open>_ws\<close>, of which the model keeps the ready state) and the
  promise \<open>_connect\<close>, which the socket's \<open>open\<close> event fulfils and its \<open>error\<close> event rejects.
  \<open>send\<close> is an \<open>async\<close> function: it stops at \<open>await this._connect\<close> and goes on in a
  microtask once the promise is settled. So the state also holds what the host keeps for
  that: the calls of \<open>send\<close> that wait on the pending promise, in the order they were made
  (\<open>awaiting\<close>), and the microtask queue. A call of \<open>send\<close> is named by its number
  (\<open>calls\<close> counts them). \<open>sent\<close> lists the messages handed to the open socket; \<open>settled\<close>
  lists the calls of \<open>send\<close> that have ended, with \<open>None\<close> for one that returned and \<open>Some e\<close>
  for one that failed with \<open>e\<close>; \<open>closes\<close> counts the socket's \<open>close\<close> events (each calls
  the \<open>onclose\<close> hook).
\<close>

datatype readyState = CONNECTING | OPEN | CLOSING | CLOSED

datatype promise = Pending | Fulfilled | Rejected error

datatype job = Resume nat string "error option"

record transport =
  readyState :: readyState
  connect :: promise
  awaiting :: "(nat \<times> string) list"
  microtasks :: "job list"
  sent :: "string list"
  settled :: "(nat \<times> error option) list"
  calls :: nat
  closes :: nat

text \<open>The state when the constructor returns.\<close>

definition new_transport :: transport where
  "new_transport = \<lparr> readyState = CONNECTING, connect = Pending, awaiting = [],
                       microtasks = [], sent = [], settled = [], calls = 0, closes = 0 \<rparr>"

text \<open>
  \<open>send(message)\<close> up to its \<open>await\<close>: on a pending promise the call waits; on a settled one
  its continuation is queued as a microtask at once.
\<close>

definition send :: "string \<Rightarrow> transport \<Rightarrow> transport" where
  "send message s =
     (let n = calls s; s1 = s\<lparr>calls := Suc n\<rparr>
      in case connect s of
           Pending \<Rightarrow> s1\<lparr>awaiting := awaiting s @ [(n, message)]\<rparr>
         | Fulfilled \<Rightarrow> s1\<lparr>microtasks := microtasks s @ [Resume n message None]\<rparr>
         | Rejected e \<Rightarrow> s1\<lparr>microtasks := microtasks s @ [Resume n message (Some e)]\<rparr>)"

text \<open>
  \<open>fulfill()\<close> and \<open>reject(e)\<close> of \<open>_connect\<close>: the first of them settles the promise and queues
  the continuations of the waiting calls, in their order; later ones do nothing.
\<close>

definition settle :: "error option \<Rightarrow> transport \<Rightarrow> transport" where
  "settle r s =
     (case connect s of
        Pending \<Rightarrow>
          s\<lparr>connect := (case r of None \<Rightarrow> Fulfilled | Some e \<Rightarrow> Rejected e),
            microtasks := microtasks s @ map (\<lambda>(n, m). Resume n m r) (awaiting s),
            awaiting := []\<rparr>
      | Fulfilled \<Rightarrow> s
      | Rejected e \<Rightarrow> s)"

text \<open>
  The listeners the constructor registers on the socket for its events \<open>open\<close>, \<open>error\<close>
  (the error is \<open>new Error(event.toString())\<close>, \<open>text\<close> being that string) and \<open>close\<close>; the
  socket has changed its ready state before it fires \<open>open\<close> or \<open>close\<close>.
\<close>

definition on_open :: "transport \<Rightarrow> transport" where
  "on_open s = settle None (s\<lparr>readyState := OPEN\<rparr>)"

definition on_error :: "string \<Rightarrow> transport \<Rightarrow> transport" where
  "on_error text s = settle (Some (Error text)) s"

definition on_close :: "transport \<Rightarrow> transport" where
  "on_close s = s\<lparr>readyState := CLOSED, closes := Suc (closes s)\<rparr>"

definition close :: "transport \<Rightarrow> transport" where
  "close s = (if readyState s = CLOSED then s else s\<lparr>readyState := CLOSING\<rparr>)"

text \<open>
  The rest of \<open>send\<close>, run as a microtask: on a rejected promise \<open>await\<close> throws the
  promise's error; otherwise \<open>this._ws.send(message)\<close>. What the socket's \<open>send\<close> does when
  the socket is not open is the socket's business and differs between the two sockets
  (browser and \<open>ws\<close>); it is the parameter \<open>sock\<close>: \<open>None\<close> when the call returns, \<open>Some e\<close>
  when it throws \<open>e\<close>.
\<close>

fun run_job :: "(readyState \<Rightarrow> error option) \<Rightarrow> transport \<Rightarrow> job \<Rightarrow> transport" where
  "run_job sock s (Resume n message (Some e)) = s\<lparr>settled := settled s @ [(n, Some e)]\<rparr>"
| "run_job sock s (Resume n message None) =
     (if readyState s = OPEN
      then s\<lparr>sent := sent s @ [message], settled := settled s @ [(n, None)]\<rparr>
      else s\<lparr>settled := settled s @ [(n, sock (readyState s))]\<rparr>)"

definition checkpoint :: "(readyState \<Rightarrow> error option) \<Rightarrow> transport \<Rightarrow> transport" where
  "checkpoint sock s = foldl (run_job sock) (s\<lparr>microtasks := []\<rparr>) (microtasks s)"

text \<open>
  What happens to a transport, step by step: the caller calls \<open>send\<close> or \<open>close\<close>, the
  caller's task ends (the host then runs the microtasks), or the socket fires an event
  (the host runs the listeners and then the microtasks).
\<close>

datatype action = Send string | Close | EndOfTask | WsOpen | WsError string | WsClose

fun host :: "(readyState \<Rightarrow> error option) \<Rightarrow> transport \<Rightarrow> action \<Rightarrow> transport" where
  "host sock s (Send message) = send message s"
| "host sock s Close = close s"
| "host sock s EndOfTask = checkpoint sock s"
| "host sock s WsOpen = checkpoint sock (on_open s)"
| "host sock s (WsError text) = checkpoint sock (on_error text s)"
| "host sock s WsClose = checkpoint sock (on_close s)"

fun sending :: "action \<Rightarrow> bool" where
  "sending (Send message) = True"
| "sending EndOfTask = True"
| "sending a = False"

fun messages :: "action list \<Rightarrow> string list" where
  "messages [] = []"
| "messages (Send message # as) = message # messages as"
| "messages (a # as) = messages as"

text \<open>
  The states of a transport that is still connecting, after the calls \<open>send(m)\<close> for the
  messages \<open>ms\<close>, and the states after the promise was settled with \<open>r\<close>.
\<close>

definition connecting :: "string list \<Rightarrow> transport \<Rightarrow> bool" where
  "connecting ms s \<longleftrightarrow> readyState s = CONNECTING \<and> connect s = Pending \<and> microtasks s = [] \<and>
      sent s = [] \<and> settled s = [] \<and> calls s = length ms \<and>
      awaiting s = zip [0..<length ms] ms"

definition resumed :: "error option \<Rightarrow> string list \<Rightarrow> transport \<Rightarrow> bool" where
  "resumed r ms s \<longleftrightarrow>
     connect s = (case r of None \<Rightarrow> Fulfilled | Some e \<Rightarrow> Rejected e) \<and>
     awaiting s = [] \<and> calls s = length ms \<and>
     (case r of None \<Rightarrow> readyState s = OPEN | Some e \<Rightarrow> sent s = []) \<and>
     (\<exists>pend. microtasks s = map (\<lambda>(n, m). Resume n m r) pend \<and>
             settled s @ map (\<lambda>(n, m). (n, r)) pend = map (\<lambda>n. (n, r)) [0..<length ms] \<and>
             (case r of None \<Rightarrow> sent s @ map snd pend = ms | Some e \<Rightarrow> True))"

section \<open>The polyfill byte buffer (\<open>BufferImpl\<close> in \<open>src/platform.ts\<close>)\<close>

text \<open>
  A buffer object holds an \<open>ArrayBuffer\<close>, here its bytes. A JavaScript string is a sequence
  of 16-bit code units. The constructor takes a string or an \<open>ArrayBuffer\<close>. Encoding names
  are written as ordinary strings; a call that leaves the encoding out passes \<open>''utf8''\<close>.
\<close>

type_synonym byte = "8 word"
type_synonym unit16 = "16 word"

record BufferImpl =
  data :: "byte list"

datatype init = FromString "unit16 list" | FromArrayBuffer "byte list"

subsection \<open>The host's text encoder and decoder\<close>

text \<open>
  \<open>TextEncoder\<close> and \<open>TextDecoder\<close> belong to the host, not to the repository. They are
  written out here as the Encoding standard defines them, as far as the buffer uses them.
  \<open>TextEncoder.encode\<close> first turns the code units into scalar values (a surrogate pair
  gives one scalar value, a lone surrogate gives U+FFFD) and then writes each scalar value
  as one to four bytes.
\<close>

definition is_high :: "unit16 \<Rightarrow> bool" where
  "is_high u \<longleftrightarrow> 0xD800 \<le> unat u \<and> unat u \<le> 0xDBFF"

definition is_low :: "unit16 \<Rightarrow> bool" where
  "is_low u \<longleftrightarrow> 0xDC00 \<le> unat u \<and> unat u \<le> 0xDFFF"

fun scalar_values :: "unit16 list \<Rightarrow> nat list" where
  "scalar_values [] = []"
| "scalar_values [u] = [if is_high u \<or> is_low u then 0xFFFD else unat u]"
| "scalar_values (u # v # us) =
     (if is_high u \<and> is_low v
      then (0x10000 + (unat u - 0xD800) * 0x400 + (unat v - 0xDC00)) # scalar_values us
      else (if is_high u \<or> is_low u then 0xFFFD else unat u) # scalar_values (v # us))"

definition utf8_bytes :: "nat \<Rightarrow> nat list" where
  "utf8_bytes c =
     (if c < 0x80 then [c]
      else if c < 0x800 then [0xC0 + c div 0x40, 0x80 + c mod 0x40]
      else if c < 0x10000 then [0xE0 + c div 0x1000, 0x80 + c div 0x40 mod 0x40, 0x80 + c mod 0x40]
      else [0xF0 + c div 0x40000, 0x80 + c div 0x1000 mod 0x40, 0x80 + c div 0x40 mod 0x40,
            0x80 + c mod 0x40])"

definition TextEncoder_encode :: "unit16 list \<Rightarrow> byte list" where
  "TextEncoder_encode s = map of_nat (concat (map utf8_bytes (scalar_values s)))"

text \<open>
  The UTF-8 decoder in fatal mode: \<open>None\<close> is the \<open>TypeError\<close> it throws on a byte sequence
  that is not UTF-8 (overlong forms, surrogates and values above U+10FFFF are excluded by
  the bounds on the second byte). The decoder then drops a leading byte order mark
  (\<open>ignoreBOM\<close> is not set) and returns the scalar values as code units.
\<close>

definition continuation :: "nat \<Rightarrow> bool" where
  "continuation b \<longleftrightarrow> 0x80 \<le> b \<and> b \<le> 0xBF"

fun utf8_decode :: "nat list \<Rightarrow> nat list option" where
  "utf8_decode [] = Some []"
| "utf8_decode (b # bs) =
     (if b < 0x80 then map_option ((#) b) (utf8_decode bs)
      else if 0xC2 \<le> b \<and> b \<le> 0xDF then
        (case bs of
           b1 # r \<Rightarrow>
             if continuation b1
             then map_option ((#) ((b - 0xC0) * 0x40 + (b1 - 0x80))) (utf8_decode r)
             else None
         | _ \<Rightarrow> None)
      else if 0xE0 \<le> b \<and> b \<le> 0xEF then
        (case bs of
           b1 # b2 # r \<Rightarrow>
             if (if b = 0xE0 then 0xA0 else 0x80) \<le> b1 \<and> b1 \<le> (if b = 0xED then 0x9F else 0xBF)
                \<and> continuation b2
             then map_option ((#) ((b - 0xE0) * 0x1000 + (b1 - 0x80) * 0x40 + (b2 - 0x80)))
                    (utf8_decode r)
             else None
         | _ \<Rightarrow> None)
      else if 0xF0 \<le> b \<and> b \<le> 0xF4 then
        (case bs of
           b1 # b2 # b3 # r \<Rightarrow>
             if (if b = 0xF0 then 0x90 else 0x80) \<le> b1 \<and> b1 \<le> (if b = 0xF4 then 0x8F else 0xBF)
                \<and> continuation b2 \<and> continuation b3
             then map_option ((#) ((b - 0xF0) * 0x40000 + (b1 - 0x80) * 0x1000 + (b2 - 0x80) * 0x40
                                   + (b3 - 0x80)))
                    (utf8_decode r)
             else None
         | _ \<Rightarrow> None)
      else None)"

definition utf16_units :: "nat \<Rightarrow> unit16 list" where
  "utf16_units c =
     (if c < 0x10000 then [of_nat c]
      else [of_nat (0xD800 + (c - 0x10000) div 0x400), of_nat (0xDC00 + (c - 0x10000) mod 0x400)])"

definition strip_BOM :: "nat list \<Rightarrow> nat list" where
  "strip_BOM cs = (case cs of [] \<Rightarrow> [] | c # r \<Rightarrow> if c = 0xFEFF then r else cs)"

definition utf8_decoder :: "byte list \<Rightarrow> error + unit16 list" where
  "utf8_decoder bytes =
     (case utf8_decode (map unat bytes) of
        None \<Rightarrow> Inl TypeError
      | Some cs \<Rightarrow> Inr (concat (map utf16_units (strip_BOM cs))))"

text \<open>
  \<open>new TextDecoder(label, {fatal: true})\<close>: the labels of UTF-8, as the standard lists
  them; every other label (other spellings, other encodings) is looked up in the rest of
  the host's table, the parameter \<open>others\<close>; a label the host does not know is a
  \<open>RangeError\<close>.
\<close>

definition utf8_labels :: "string list" where
  "utf8_labels = [''unicode-1-1-utf-8'', ''unicode11utf8'', ''unicode20utf8'', ''utf-8'', ''utf8'',
                  ''x-unicode20utf8'']"

definition TextDecoder ::
  "(string \<Rightarrow> (byte list \<Rightarrow> error + unit16 list) option) \<Rightarrow> string
     \<Rightarrow> error + (byte list \<Rightarrow> error + unit16 list)" where
  "TextDecoder others label =
     (if label \<in> set utf8_labels then Inr utf8_decoder
      else case others label of None \<Rightarrow> Inl RangeError | Some decoder \<Rightarrow> Inr decoder)"

text \<open>A string is well formed when every surrogate in it is part of a pair.\<close>

fun well_formed :: "unit16 list \<Rightarrow> bool" where
  "well_formed [] = True"
| "well_formed [u] = (\<not> is_high u \<and> \<not> is_low u)"
| "well_formed (u # v # us) =
     (if is_high u then is_low v \<and> well_formed us
      else \<not> is_low u \<and> well_formed (v # us))"

definition scalar :: "nat \<Rightarrow> bool" where
  "scalar c \<longleftrightarrow> c < 0x110000 \<and> (c < 0xD800 \<or> 0xDFFF < c)"

subsection \<open>The host's 16-bit view and base64 functions\<close>

text \<open>
  A \<open>Uint16Array\<close> over an \<open>ArrayBuffer\<close> stores each element in two bytes, the low byte
  first (the byte order of the platforms in use); a view over a buffer of odd length is a
  \<open>RangeError\<close>.
\<close>

definition uint16_bytes :: "unit16 list \<Rightarrow> byte list" where
  "uint16_bytes us = concat (map (\<lambda>u. [of_nat (unat u mod 256), of_nat (unat u div 256)]) us)"

fun uint16_elements :: "byte list \<Rightarrow> unit16 list" where
  "uint16_elements (lo # hi # bs) = of_nat (unat lo + 256 * unat hi) # uint16_elements bs"
| "uint16_elements bs = []"

definition Uint16Array :: "byte list \<Rightarrow> error + unit16 list" where
  "Uint16Array buffer =
     (if length buffer mod 2 = 0 then Inr (uint16_elements buffer) else Inl RangeError)"

text \<open>
  \<open>btoa\<close> and \<open>atob\<close>, as the HTML standard defines them: \<open>btoa\<close> refuses a code unit above
  \<open>0xFF\<close> and writes three bytes as four characters of the base64 alphabet, padded with
  \<open>=\<close> (61); \<open>atob\<close> removes ASCII whitespace, removes one or two \<open>=\<close> at the end of a string
  whose length is a multiple of four, refuses a length of one more than a multiple of four
  and any character outside the alphabet, and reads four characters as three bytes.
  Characters are given by their code.
\<close>

definition alphabet :: "nat \<Rightarrow> nat" where
  "alphabet i =
     (if i < 26 then 65 + i else if i < 52 then 71 + i else if i < 62 then i - 4
      else if i = 62 then 43 else 47)"

definition alphabet_index :: "nat \<Rightarrow> nat option" where
  "alphabet_index c =
     (if 65 \<le> c \<and> c \<le> 90 then Some (c - 65)
      else if 97 \<le> c \<and> c \<le> 122 then Some (c - 71)
      else if 48 \<le> c \<and> c \<le> 57 then Some (c + 4)
      else if c = 43 then Some 62
      else if c = 47 then Some 63
      else None)"

fun base64_encode :: "nat list \<Rightarrow> nat list" where
  "base64_encode (a # b # c # bs) =
     alphabet (a div 4) # alphabet (a mod 4 * 16 + b div 16) #
     alphabet (b mod 16 * 4 + c div 64) # alphabet (c mod 64) # base64_encode bs"
| "base64_encode [a, b] =
     [alphabet (a div 4), alphabet (a mod 4 * 16 + b div 16), alphabet (b mod 16 * 4), 61]"
| "base64_encode [a] = [alphabet (a div 4), alphabet (a mod 4 * 16), 61, 61]"
| "base64_encode [] = []"

definition btoa :: "unit16 list \<Rightarrow> error + unit16 list" where
  "btoa s =
     (if list_all (\<lambda>u. unat u \<le> 0xFF) s then Inr (map of_nat (base64_encode (map unat s)))
      else Inl InvalidCharacterError)"

definition ascii_whitespace :: "nat \<Rightarrow> bool" where
  "ascii_whitespace c \<longleftrightarrow> c = 9 \<or> c = 10 \<or> c = 12 \<or> c = 13 \<or> c = 32"

definition strip_padding :: "nat list \<Rightarrow> nat list" where
  "strip_padding cs =
     (if length cs mod 4 = 0 then
        (if 2 \<le> length cs \<and> last cs = 61 \<and> last (butlast cs) = 61 then butlast (butlast cs)
         else if 1 \<le> length cs \<and> last cs = 61 then butlast cs
         else cs)
      else cs)"

fun sextet_bytes :: "nat list \<Rightarrow> nat list" where
  "sextet_bytes (p # q # r # s # ps) =
     (p * 4 + q div 16) # (q mod 16 * 16 + r div 4) # (r mod 4 * 64 + s) # sextet_bytes ps"
| "sextet_bytes [p, q, r] = [p * 4 + q div 16, q mod 16 * 16 + r div 4]"
| "sextet_bytes [p, q] = [p * 4 + q div 16]"
| "sextet_bytes ps = []"

definition atob :: "unit16 list \<Rightarrow> error + unit16 list" where
  "atob s =
     (let cs = strip_padding (filter (\<lambda>c. \<not> ascii_whitespace c) (map unat s))
      in if length cs mod 4 = 1 then Inl InvalidCharacterError
         else if list_all (\<lambda>c. alphabet_index c \<noteq> None) cs
         then Inr (map of_nat (sextet_bytes (map (\<lambda>c. the (alphabet_index c)) cs)))
         else Inl InvalidCharacterError)"

text \<open>Used in the proofs only: the 6-bit groups of a byte sequence and its padding.\<close>

fun sextets :: "nat list \<Rightarrow> nat list" where
  "sextets (a # b # c # bs) =
     (a div 4) # (a mod 4 * 16 + b div 16) # (b mod 16 * 4 + c div 64) # (c mod 64) # sextets bs"
| "sextets [a, b] = [a div 4, a mod 4 * 16 + b div 16, b mod 16 * 4]"
| "sextets [a] = [a div 4, a mod 4 * 16]"
| "sextets [] = []"

fun padding :: "nat list \<Rightarrow> nat list" where
  "padding (a # b # c # bs) = padding bs"
| "padding [a, b] = [61]"
| "padding [a] = [61, 61]"
| "padding [] = []"

text \<open>The string whose code units are the given bytes.\<close>

definition binary_string :: "byte list \<Rightarrow> unit16 list" where
  "binary_string bytes = map ucast bytes"

subsection \<open>The buffer class\<close>

text \<open>The constructor and \<open>from\<close>.\<close>

definition BufferImpl_new :: "init \<Rightarrow> string \<Rightarrow> error + BufferImpl" where
  "BufferImpl_new d encoding =
     (case d of
        FromArrayBuffer buffer \<Rightarrow> Inr \<lparr>data = buffer\<rparr>
      | FromString s \<Rightarrow>
          if encoding = ''base64'' then
            (case atob s of
               Inl e \<Rightarrow> Inl e
             | Inr binary \<Rightarrow> Inr \<lparr>data = uint16_bytes binary\<rparr>)
          else if encoding = ''utf8'' then Inr \<lparr>data = TextEncoder_encode s\<rparr>
          else Inl (Error (''Unsupported encoding '' @ [CHR 0x22] @ encoding @ [CHR 0x22])))"

definition BufferImpl_from :: "init \<Rightarrow> string \<Rightarrow> error + BufferImpl" where
  "BufferImpl_from d encoding = BufferImpl_new d encoding"

text \<open>
  \<open>String.fromCharCode(...units)\<close>: the spread hands every element to the function as an
  argument of its own, in one call, and a host takes only so many arguments in a call
  (\<open>limit\<close>, a number of the host); with more the call is a \<open>RangeError\<close>.
\<close>

definition fromCharCode_spread :: "nat \<Rightarrow> unit16 list \<Rightarrow> error + unit16 list" where
  "fromCharCode_spread limit units =
     (if length units \<le> limit then Inr units else Inl RangeError)"

definition toString ::
  "(string \<Rightarrow> (byte list \<Rightarrow> error + unit16 list) option) \<Rightarrow> nat \<Rightarrow> BufferImpl \<Rightarrow> string
     \<Rightarrow> error + unit16 list" where
  "toString others limit b encoding =
     (if encoding = ''base64'' then
        (case Uint16Array (data b) of
           Inl e \<Rightarrow> Inl e
         | Inr units \<Rightarrow>
             (case fromCharCode_spread limit units of
                Inl e \<Rightarrow> Inl e
              | Inr binary \<Rightarrow> btoa binary))
      else
        (case TextDecoder others encoding of
           Inl e \<Rightarrow> Inl e
         | Inr decoder \<Rightarrow> decoder (data b)))"


text \<open>
  \<open>concat\<close> is about objects: it may return one of its arguments. So buffers live in a heap,
  a list of objects addressed by position, and \<open>concat\<close> takes and returns addresses;
  \<open>alloc\<close> is \<open>new BufferImpl(...)\<close>. \<open>byteLength b\<close> is \<open>b.data.byteLength\<close>. \<open>view_set\<close> is
  \<open>view.set(source, offset)\<close> of a byte view, which refuses a source that does not fit, and
  \<open>copy_all\<close> is the loop of \<open>concat\<close>.
\<close>

type_synonym heap = "BufferImpl list"

definition alloc :: "BufferImpl \<Rightarrow> heap \<Rightarrow> nat \<times> heap" where
  "alloc b h = (length h, h @ [b])"

definition byteLength :: "BufferImpl \<Rightarrow> nat" where
  "byteLength b = length (data b)"

definition view_set :: "byte list \<Rightarrow> byte list \<Rightarrow> nat \<Rightarrow> error + byte list" where
  "view_set view source offset =
     (if offset + length source \<le> length view
      then Inr (take offset view @ source @ drop (offset + length source) view)
      else Inl RangeError)"

fun copy_all :: "heap \<Rightarrow> nat list \<Rightarrow> byte list \<Rightarrow> nat \<Rightarrow> error + byte list" where
  "copy_all h [] view offset = Inr view"
| "copy_all h (b # bs) view offset =
     (case view_set view (data (h ! b)) offset of
        Inl e \<Rightarrow> Inl e
      | Inr view' \<Rightarrow> copy_all h bs view' (offset + byteLength (h ! b)))"

definition BufferImpl_concat :: "heap \<Rightarrow> nat list \<Rightarrow> error + nat \<times> heap" where
  "BufferImpl_concat h buffers =
     (if length buffers = 0 then Inr (alloc \<lparr>data = []\<rparr> h)
      else if length buffers = 1 then Inr (buffers ! 0, h)
      else
        (case copy_all h buffers
                (replicate (foldl (\<lambda>a b. a + byteLength (h ! b)) 0 buffers) 0) 0 of
           Inl e \<Rightarrow> Inl e
         | Inr view \<Rightarrow> Inr (alloc \<lparr>data = view\<rparr> h)))"

section \<open>The URL match predicate (\<open>urlMatches\<close> in \<open>src/platform.ts\<close>)\<close>

text \<open>
  A pattern is a string, a regular expression, a function on the parsed URL, or something
  else (which the final assertion refuses); \<open>None\<close> is \<open>undefined\<close>. A regular expression is
  given by its \<open>test\<close>, a function is given by its result. Of the parsed URL only the path
  is read. The host's URL parser is the parameter \<open>new_URL\<close> (\<open>None\<close>: it throws a
  \<open>TypeError\<close>), and \<open>helper.globToRegex\<close> is the parameter \<open>toRegex\<close>.
\<close>

record URL =
  pathname :: string

datatype URLMatch = Text string | RegExp "string \<Rightarrow> bool" | Function "URL \<Rightarrow> bool" | Other

definition urlMatches ::
  "(string \<Rightarrow> string \<Rightarrow> bool) \<Rightarrow> (string \<Rightarrow> URL option) \<Rightarrow> string \<Rightarrow> URLMatch option
     \<Rightarrow> error + bool" where
  "urlMatches toRegex new_URL urlString match =
     (case match of
        None \<Rightarrow> Inr True
      | Some m0 \<Rightarrow>
          if (case m0 of Text t \<Rightarrow> t = [] | _ \<Rightarrow> False) then Inr True
          else
            let m = (case m0 of Text t \<Rightarrow> RegExp (toRegex t) | _ \<Rightarrow> m0)
            in case m of
                 RegExp test \<Rightarrow> Inr (test urlString)
               | _ \<Rightarrow>
                   if (case m of Text t \<Rightarrow> t = urlString | _ \<Rightarrow> False) then Inr True
                   else
                     (case new_URL urlString of
                        None \<Rightarrow> Inl TypeError
                      | Some url \<Rightarrow>
                          (case m of
                             Text t \<Rightarrow> Inr (pathname url = t)
                           | Function f \<Rightarrow> Inr (f url)
                           | _ \<Rightarrow> Inl (Error ''url parameter should be string, RegExp or function''))))"

text \<open>
  Modelled from the spec: the characters that make a text pattern a glob. The spec speaks
  of glob metacharacters and names none; these are the usual ones.
\<close>

definition glob_metacharacters :: "char list" where
  "glob_metacharacters = ''*?[]{}''"

definition plain :: "string \<Rightarrow> bool" where
  "plain t = list_all (\<lambda>c. c \<notin> set glob_metacharacters) t"

text \<open>
  Modelled from the spec: \<open>helper.globToRegex\<close>, whose source (\<open>helper.ts\<close>) is missing. The
  spec says that a glob-style text pattern is converted to an equivalent regular
  expression and tested against the full URL string. So a pattern without glob
  metacharacters becomes the expression that matches exactly that text; what a pattern
  with metacharacters matches is left open (the parameter \<open>meta\<close>).
\<close>

definition globToRegex :: "(string \<Rightarrow> string \<Rightarrow> bool) \<Rightarrow> string \<Rightarrow> string \<Rightarrow> bool" where
  "globToRegex meta glob = (if plain glob then (\<lambda>s. s = glob) else meta glob)"

section \<open>Properties of the event emitter\<close>












lemma drain_done:
  "deliveryQueue s = Some q \<Longrightarrow> \<not> i < length q \<Longrightarrow> drain fuel body i s = (Returned, s)"
  by (cases fuel) simp_all

lemma Wrapped_neq: "Wrapped k ev l \<noteq> l"
  by (induction l arbitrary: k ev) auto






text \<open>
  Claim C2. On a new emitter, \<open>once(ev, f1)\<close> where \<open>f1\<close> (function 1) calls \<open>emit(ev)\<close> before
  it returns, then \<open>on(ev, f2)\<close> (function 2), then one call \<open>emit(ev)\<close>: with three units of
  fuel or more the call returns; \<open>f1\<close> has been called once and \<open>f2\<close> twice, in this order and
  with the arguments of the outer and of the nested emission, and nothing else was called;
  only \<open>f2\<close> is still registered. The wrapper of \<open>once\<close> unregisters itself before it calls
  \<open>f1\<close>, so the nested emission does not queue it.
\<close>

theorem once_reentrant_scenario:
  "fst (emit (Suc (Suc (Suc k))) (reemitting ev b) ev a
          (on ev (Fn 2) (once ev (Fn 1) new_emitter))) = Returned \<and>
   called (snd (emit (Suc (Suc (Suc k))) (reemitting ev b) ev a
          (on ev (Fn 2) (once ev (Fn 1) new_emitter)))) = [(1, a), (2, a), (2, b)] \<and>
   listeners (snd (emit (Suc (Suc (Suc k))) (reemitting ev b) ev a
          (on ev (Fn 2) (once ev (Fn 1) new_emitter)))) ev = Some [Fn 2]"
  by (simp add: emit.simps on_def once_def addListener_def removeListener_def new_emitter_def
      set_add_def set_delete_def reemitting_def Let_def drain_done)


text \<open>The scenario of the spec: event \<open>''x''\<close>, no arguments, exactly three units of fuel.\<close>

theorem once_reentrant_scenario_witness:
  "fst (emit (Suc (Suc (Suc 0))) (reemitting ''x'' []) ''x'' ([] :: nat list)
          (on ''x'' (Fn 2) (once ''x'' (Fn 1) new_emitter))) = Returned \<and>
   called (snd (emit (Suc (Suc (Suc 0))) (reemitting ''x'' []) ''x'' ([] :: nat list)
          (on ''x'' (Fn 2) (once ''x'' (Fn 1) new_emitter)))) = [(1, []), (2, []), (2, [])]"
  using once_reentrant_scenario [of 0 "''x''" "[] :: nat list" "[]"]
  by simp

text \<open>
  Claim C10. After \<open>once(ev, l)\<close>, \<open>removeListener(ev, l)\<close> leaves the wrapper that \<open>once\<close>
  registered in the registry (in any state, for any listener). On a new emitter, with a
  function \<open>f\<close> that does nothing to the emitter: after \<open>once(ev, f)\<close> and
  \<open>removeListener(ev, f)\<close> the registry holds the wrapper, and \<open>emit(ev, args)\<close> returns
  having called \<open>f\<close> exactly once, with \<open>args\<close>, after which nothing is registered.
\<close>

theorem once_survives_removeListener:
  assumes "body f args = []"
  shows "(\<exists>xs. listeners (removeListener ev l (once ev l s)) ev = Some xs \<and>
               Wrapped (closures s) ev l \<in> set xs) \<and>
         listeners (removeListener ev (Fn f) (once ev (Fn f) new_emitter)) ev
           = Some [Wrapped 0 ev (Fn f)] \<and>
         fst (emit (Suc k) body ev args
               (removeListener ev (Fn f) (once ev (Fn f) new_emitter))) = Returned \<and>
         called (snd (emit (Suc k) body ev args
               (removeListener ev (Fn f) (once ev (Fn f) new_emitter)))) = [(f, args)] \<and>
         listeners (snd (emit (Suc k) body ev args
               (removeListener ev (Fn f) (once ev (Fn f) new_emitter)))) ev = Some []"
proof -
  have 1: "\<exists>xs. listeners (removeListener ev l (once ev l s)) ev = Some xs \<and>
               Wrapped (closures s) ev l \<in> set xs"
    by (auto simp: removeListener_def once_def addListener_def on_def set_add_def set_delete_def
        Wrapped_neq split: option.splits)
  have 2: "listeners (removeListener ev (Fn f) (once ev (Fn f) new_emitter)) ev
           = Some [Wrapped 0 ev (Fn f)]"
    by (simp add: removeListener_def once_def addListener_def on_def set_add_def set_delete_def
        new_emitter_def)
  have 3: "fst (emit (Suc k) body ev args
               (removeListener ev (Fn f) (once ev (Fn f) new_emitter))) = Returned \<and>
         called (snd (emit (Suc k) body ev args
               (removeListener ev (Fn f) (once ev (Fn f) new_emitter)))) = [(f, args)] \<and>
         listeners (snd (emit (Suc k) body ev args
               (removeListener ev (Fn f) (once ev (Fn f) new_emitter)))) ev = Some []"
    using assms
    by (simp add: emit.simps on_def once_def addListener_def removeListener_def new_emitter_def
      set_add_def set_delete_def Let_def drain_done)
  from 1 2 3 show ?thesis by blast
qed

theorem once_survives_removeListener_witness:
  "(\<lambda>(_::nat) (_::int list). []) 7 [42] = ([] :: int cmd list) \<and>
   listeners (removeListener ''close'' (Fn 7) (once ''close'' (Fn 7) (new_emitter :: int emitter))) ''close''
           = Some [Wrapped 0 ''close'' (Fn 7)] \<and>
   called (snd (emit (Suc 0) (\<lambda>_ _. []) ''close'' [42::int]
               (removeListener ''close'' (Fn 7) (once ''close'' (Fn 7) new_emitter)))) = [(7, [42])]"
  using once_survives_removeListener [of "\<lambda>_ _. []" 7 "[42::int]" "''close''" "Fn 7" new_emitter 0]
  by auto

section \<open>Properties of the deferred-task scheduler\<close>

lemma armed_new: "armed makeWaitForNextTask"
  by (simp add: armed_def makeWaitForNextTask_def)

lemma submit_armed:
  "armed s \<Longrightarrow> armed (waitForNextTask cb s) \<and> invoked (waitForNextTask cb s) = invoked s \<and>
     callbacks (waitForNextTask cb s) = callbacks s @ [cb]"
  by (auto simp: armed_def waitForNextTask_def Let_def)

lemma submit_spinning:
  "spinning s \<Longrightarrow> waitForNextTask cb s = s\<lparr>callbacks := callbacks s @ [cb]\<rparr>"
  by (simp add: waitForNextTask_def Let_def)

lemma submits_spinning:
  "spinning s \<Longrightarrow> foldl (\<lambda>t c. waitForNextTask c t) s cs = s\<lparr>callbacks := callbacks s @ cs\<rparr>"
  by (induction cs arbitrary: s) (simp_all add: submit_spinning)

lemma turn_pending:
  assumes "armed s" "callbacks s = cb # rest"
  shows "turn s = s\<lparr>callbacks := rest @ submits cb, invoked := invoked s @ [cb],
                    uncaught := (if throws cb then Suc (uncaught s) else uncaught s)\<rparr>"
proof -
  from assms have sp: "spinning s" "immediates s = 1" by (auto simp: armed_def)
  then show ?thesis using assms(2)
    by (simp add: turn_def loop_def Let_def submits_spinning)
qed

lemma turn_idle:
  assumes "armed s" "callbacks s = []"
  shows "turn s = s\<lparr>spinning := False, immediates := 0\<rparr>"
  using assms by (auto simp: armed_def turn_def loop_def)

lemma armed_turn: "armed s \<Longrightarrow> armed (turn s)"
proof (cases "callbacks s")
  case Nil
  assume "armed s"
  with Nil turn_idle [OF this Nil] show ?thesis by (auto simp: armed_def)
next
  case (Cons cb rest)
  assume a: "armed s"
  from turn_pending [OF a Cons] a Cons show ?thesis by (auto simp: armed_def)
qed

text \<open>The scheduler does, step by step, what the queue of the spec does.\<close>

lemma host_step_fifo:
  assumes "armed s"
  shows "armed (host_step s e) \<and>
         (invoked (host_step s e), callbacks (host_step s e))
           = fifo_step (invoked s, callbacks s) e"
proof (cases e)
  case (Submit cb)
  with submit_armed [OF assms, of cb] show ?thesis by simp
next
  case Turn
  show ?thesis
  proof (cases "callbacks s")
    case Nil
    with Turn turn_idle [OF assms Nil] armed_turn [OF assms] show ?thesis by simp
  next
    case (Cons cb rest)
    with Turn turn_pending [OF assms Cons] armed_turn [OF assms] show ?thesis by simp
  qed
qed

lemma host_steps_fifo:
  "armed s \<Longrightarrow>
     armed (foldl host_step s evs) \<and>
     (invoked (foldl host_step s evs), callbacks (foldl host_step s evs))
       = foldl fifo_step (invoked s, callbacks s) evs"
proof (induction evs arbitrary: s)
  case Nil
  then show ?case by simp
next
  case (Cons e evs)
  from host_step_fifo [OF Cons.prems, of e]
  have a: "armed (host_step s e)"
    and f: "fifo_step (invoked s, callbacks s) e
              = (invoked (host_step s e), callbacks (host_step s e))"
    by simp_all
  from Cons.IH [OF a] show ?case by (simp add: f)
qed

lemma turns_invoke:
  "armed s \<Longrightarrow> n \<le> length (callbacks s) \<Longrightarrow>
     armed (turns n s) \<and> invoked (turns n s) = invoked s @ take n (callbacks s)"
proof (induction n arbitrary: s)
  case 0 then show ?case by simp
next
  case (Suc n)
  then obtain cb rest where c: "callbacks s = cb # rest" by (cases "callbacks s") auto
  note t = turn_pending [OF Suc.prems(1) c]
  have a: "armed (turn s)" using Suc.prems(1) by (rule armed_turn)
  have n: "n \<le> length (callbacks (turn s))" using Suc.prems(2) c t by simp
  have nr: "n \<le> length rest" using Suc.prems(2) c by simp
  from Suc.IH [OF a n] c t nr show ?case by simp
qed

lemma turns_invoke_all:
  "armed s \<Longrightarrow> list_all (\<lambda>cb. submits cb = []) (callbacks s) \<Longrightarrow>
     invoked (turns n s) = invoked s @ take n (callbacks s) \<and>
     uncaught (turns n s) = uncaught s + length (filter throws (take n (callbacks s)))"
proof (induction n arbitrary: s)
  case 0 then show ?case by simp
next
  case (Suc n)
  have a: "armed (turn s)" using Suc.prems(1) by (rule armed_turn)
  show ?case
  proof (cases "callbacks s")
    case Nil
    note t = turn_idle [OF Suc.prems(1) Nil]
    have "list_all (\<lambda>cb. submits cb = []) (callbacks (turn s))" using t Nil by simp
    from Suc.IH [OF a this] t Nil show ?thesis by simp
  next
    case (Cons cb rest)
    note t = turn_pending [OF Suc.prems(1) Cons]
    from Suc.prems(2) Cons have r: "submits cb = []" "list_all (\<lambda>cb. submits cb = []) rest"
      by simp_all
    then have "list_all (\<lambda>cb. submits cb = []) (callbacks (turn s))" using t by simp
    from Suc.IH [OF a this] t Cons r show ?thesis by simp
  qed
qed

lemma fifo_submissions:
  "list_all (\<lambda>cb. submits cb = []) (queued @ submissions evs) \<Longrightarrow>
     fst (foldl fifo_step (fired, queued) evs) @ snd (foldl fifo_step (fired, queued) evs)
       = fired @ queued @ submissions evs"
proof (induction evs arbitrary: fired queued rule: submissions.induct)
  case 1
  then show ?case by simp
next
  case (2 cb evs)
  from "2.prems" have "list_all (\<lambda>cb. submits cb = []) ((queued @ [cb]) @ submissions evs)"
    by simp
  from "2.IH" [OF this] show ?case by simp
next
  case (3 evs)
  show ?case
  proof (cases queued)
    case Nil
    with "3.prems" "3.IH" [of "[]" fired] show ?thesis by simp
  next
    case (Cons cb rest)
    with "3.prems" have "submits cb = []" "list_all (\<lambda>cb. submits cb = []) (rest @ submissions evs)"
      by simp_all
    with Cons "3.IH" [of rest "fired @ [cb]"] show ?thesis by simp
  qed
qed

text \<open>
  Claim C4. Take any history \<open>evs\<close> of submissions and host turns on a new scheduler, with
  callbacks that may throw and may submit further callbacks. The callbacks invoked so far
  and the callbacks still queued are what the first-in-first-out queue of the spec gives for
  \<open>evs\<close>: every \<open>Submit\<close> of \<open>evs\<close> puts its callback at the end, every turn runs the callback
  at the front, whether it throws or not. Each of the next turns invokes the next queued
  callback. When no submitted callback submits another, then after as many further turns
  as \<open>evs\<close> has submissions the callbacks invoked are exactly the callbacks of the \<open>Submit\<close>
  events of \<open>evs\<close>, in their order, and every one of them that throws has thrown. A turn
  that finds a callback queued leaves \<open>loop\<close> requested again, also when that callback
  throws (the request is made before the call); and every throwing callback that was
  invoked did throw (the exceptions are counted).
\<close>

theorem deferred_tasks_fifo_fault_isolated:
  "(invoked (foldl host_step makeWaitForNextTask evs),
    callbacks (foldl host_step makeWaitForNextTask evs))
     = foldl fifo_step ([], []) evs \<and>
   (n \<le> length (callbacks (foldl host_step makeWaitForNextTask evs)) \<longrightarrow>
      invoked (turns n (foldl host_step makeWaitForNextTask evs))
        = fst (foldl fifo_step ([], []) evs) @ take n (snd (foldl fifo_step ([], []) evs))) \<and>
   (list_all (\<lambda>cb. submits cb = []) (submissions evs) \<longrightarrow>
      invoked (turns (length (submissions evs)) (foldl host_step makeWaitForNextTask evs))
        = submissions evs \<and>
      uncaught (turns (length (submissions evs)) (foldl host_step makeWaitForNextTask evs))
        = length (filter throws (submissions evs))) \<and>
   immediates (turn (foldl host_step makeWaitForNextTask evs))
     = (if snd (foldl fifo_step ([], []) evs) = [] then 0 else 1) \<and>
   uncaught (foldl host_step makeWaitForNextTask evs)
     = length (filter throws (fst (foldl fifo_step ([], []) evs)))"
proof -
  define s where "s = foldl host_step makeWaitForNextTask evs"
  define fired where "fired = fst (foldl fifo_step ([], []) evs)"
  define queued where "queued = snd (foldl fifo_step ([], []) evs)"
  from host_steps_fifo [OF armed_new, of evs]
  have a: "armed s" and r: "(invoked s, callbacks s) = foldl fifo_step ([], []) evs"
    by (simp_all add: s_def makeWaitForNextTask_def)
  from r have i: "invoked s = fired" and c: "callbacks s = queued"
    unfolding fired_def queued_def by (metis fst_conv, metis snd_conv)
  from a i have 5: "uncaught s = length (filter throws fired)" by (simp add: armed_def)
  have 2: "n \<le> length (callbacks s) \<longrightarrow> invoked (turns n s) = fired @ take n queued"
    using turns_invoke [OF a, of n] i c by simp
  have 3: "list_all (\<lambda>cb. submits cb = []) (submissions evs) \<longrightarrow>
      invoked (turns (length (submissions evs)) s) = submissions evs \<and>
      uncaught (turns (length (submissions evs)) s) = length (filter throws (submissions evs))"
  proof
    assume p: "list_all (\<lambda>cb. submits cb = []) (submissions evs)"
    from fifo_submissions [of "[]" evs "[]"] p
    have all: "fired @ queued = submissions evs" by (simp add: fired_def queued_def)
    then have "list_all (\<lambda>cb. submits cb = []) (callbacks s)"
      using p c by (metis list_all_append)
    from turns_invoke_all [OF a this, of "length (submissions evs)"] i c 5
    have "invoked (turns (length (submissions evs)) s)
            = fired @ take (length (fired @ queued)) queued"
      and "uncaught (turns (length (submissions evs)) s)
            = length (filter throws fired)
              + length (filter throws (take (length (fired @ queued)) queued))"
      by (simp_all add: all)
    then show "invoked (turns (length (submissions evs)) s) = submissions evs \<and>
      uncaught (turns (length (submissions evs)) s) = length (filter throws (submissions evs))"
      using all [symmetric] by simp
  qed
  have 4: "immediates (turn s) = (if queued = [] then 0 else 1)"
  proof (cases "callbacks s")
    case Nil
    with turn_idle [OF a Nil] c show ?thesis by simp
  next
    case (Cons cb rest)
    with turn_pending [OF a Cons] a c show ?thesis by (auto simp: armed_def)
  qed
  from r 2 3 4 5 show ?thesis unfolding s_def fired_def queued_def by blast
qed

theorem deferred_tasks_fifo_fault_isolated_witness:
  "list_all (\<lambda>cb. submits cb = [])
     (submissions [Submit (Callback 1 [] False), Submit (Callback 2 [] True), Turn,
                   Submit (Callback 3 [] False)]) \<and>
   invoked (turns 3 (foldl host_step makeWaitForNextTask
      [Submit (Callback 1 [] False), Submit (Callback 2 [] True), Turn,
       Submit (Callback 3 [] False)]))
     = [Callback 1 [] False, Callback 2 [] True, Callback 3 [] False] \<and>
   uncaught (turns 3 (foldl host_step makeWaitForNextTask
      [Submit (Callback 1 [] False), Submit (Callback 2 [] True), Turn,
       Submit (Callback 3 [] False)])) = 1 \<and>
   (2::nat) \<le> length (callbacks (foldl host_step makeWaitForNextTask
      [Submit (Callback 1 [] False), Submit (Callback 2 [Callback 4 [] False] True), Turn,
       Submit (Callback 3 [] False), Turn])) \<and>
   invoked (turns 2 (foldl host_step makeWaitForNextTask
      [Submit (Callback 1 [] False), Submit (Callback 2 [Callback 4 [] False] True), Turn,
       Submit (Callback 3 [] False), Turn]))
     = [Callback 1 [] False, Callback 2 [Callback 4 [] False] True, Callback 3 [] False,
        Callback 4 [] False]"
proof -
  let ?plain = "[Submit (Callback 1 [] False), Submit (Callback 2 [] True), Turn,
                 Submit (Callback 3 [] False)]"
  let ?nested = "[Submit (Callback 1 [] False), Submit (Callback 2 [Callback 4 [] False] True), Turn,
       Submit (Callback 3 [] False), Turn]"
  have p: "list_all (\<lambda>cb. submits cb = []) (submissions ?plain)" by simp
  have l: "length (submissions ?plain) = 3" by simp
  have f: "foldl fifo_step ([], []) ?nested
             = ([Callback 1 [] False, Callback 2 [Callback 4 [] False] True],
                [Callback 3 [] False, Callback 4 [] False])"
    by simp
  from deferred_tasks_fifo_fault_isolated [of ?nested 2] f
  have c: "callbacks (foldl host_step makeWaitForNextTask ?nested)
             = [Callback 3 [] False, Callback 4 [] False]"
    by simp
  then have n: "(2::nat) \<le> length (callbacks (foldl host_step makeWaitForNextTask ?nested))"
    by simp
  from deferred_tasks_fifo_fault_isolated [of ?nested 2] n f
  have 2: "invoked (turns 2 (foldl host_step makeWaitForNextTask ?nested))
     = [Callback 1 [] False, Callback 2 [Callback 4 [] False] True, Callback 3 [] False,
        Callback 4 [] False]"
    by simp
  from deferred_tasks_fifo_fault_isolated [of ?plain 0] p l
  have 1: "invoked (turns 3 (foldl host_step makeWaitForNextTask ?plain))
            = [Callback 1 [] False, Callback 2 [] True, Callback 3 [] False]"
    "uncaught (turns 3 (foldl host_step makeWaitForNextTask ?plain)) = 1"
    by (simp_all add: numeral_3_eq_3)
  from p 1 n 2 show ?thesis by blast
qed


section \<open>Properties of the message transport\<close>

lemma connecting_new: "connecting [] new_transport"
  by (simp add: connecting_def new_transport_def)

lemma connecting_step:
  assumes "connecting ms s" "sending a"
  shows "connecting (ms @ messages [a]) (host sock s a)"
proof (cases a)
  case (Send m)
  have "zip [0..<length ms] ms @ [(length ms, m)] = zip ([0..<length ms] @ [length ms]) (ms @ [m])"
    by simp
  with assms Send show ?thesis
    by (simp add: connecting_def send_def Let_def del: zip_append)
next
  case EndOfTask
  with assms show ?thesis by (simp add: connecting_def checkpoint_def)
qed (use assms in simp_all)

lemma messages_append: "messages (as @ bs) = messages as @ messages bs"
  by (induction as rule: messages.induct) simp_all

lemma connecting_steps:
  "connecting ms s \<Longrightarrow> list_all sending as \<Longrightarrow>
     connecting (ms @ messages as) (foldl (host sock) s as)"
proof (induction as arbitrary: ms s)
  case Nil then show ?case by simp
next
  case (Cons a as)
  from Cons.prems have "connecting (ms @ messages [a]) (host sock s a)"
    by (simp add: connecting_step)
  from Cons.IH [OF this] Cons.prems(2) show ?case
    using messages_append [of "[a]" as] by simp
qed

lemma run_jobs_open:
  "readyState s = OPEN \<Longrightarrow>
   foldl (run_job sock) s (map (\<lambda>(n, m). Resume n m None) pend) =
     s\<lparr>sent := sent s @ map snd pend, settled := settled s @ map (\<lambda>(n, m). (n, None)) pend\<rparr>"
  by (induction pend arbitrary: s) (simp_all add: case_prod_beta)

lemma run_jobs_rejected:
  "foldl (run_job sock) s (map (\<lambda>(n, m). Resume n m (Some e)) pend) =
     s\<lparr>settled := settled s @ map (\<lambda>(n, m). (n, Some e)) pend\<rparr>"
  by (induction pend arbitrary: s) (simp_all add: case_prod_beta)

lemma resumed_checkpoint:
  assumes "resumed r ms s"
  shows "resumed r ms (checkpoint sock s) \<and> microtasks (checkpoint sock s) = [] \<and>
         settled (checkpoint sock s) = map (\<lambda>n. (n, r)) [0..<length ms] \<and>
         sent (checkpoint sock s) = (case r of None \<Rightarrow> ms | Some e \<Rightarrow> [])"
proof (cases r)
  case None
  with assms show ?thesis
    by (auto simp: resumed_def checkpoint_def run_jobs_open)
next
  case (Some e)
  with assms show ?thesis
    by (auto simp: resumed_def checkpoint_def run_jobs_rejected)
qed

lemma map_idx_snoc:
  "map f [0..<n] @ [f n] = map f [0..<Suc n]"
  by simp

lemma resumed_send:
  assumes "resumed r ms s"
  shows "resumed r (ms @ [m]) (send m s)"
proof -
  from assms obtain pend where p: "microtasks s = map (\<lambda>(n, m). Resume n m r) pend"
    "settled s @ map (\<lambda>(n, m). (n, r)) pend = map (\<lambda>n. (n, r)) [0..<length ms]"
    "case r of None \<Rightarrow> sent s @ map snd pend = ms | Some e \<Rightarrow> True"
    by (auto simp: resumed_def)
  let ?pend = "pend @ [(length ms, m)]"
  have 1: "microtasks (send m s) = map (\<lambda>(n, m). Resume n m r) ?pend"
    using assms p(1) by (auto simp: resumed_def send_def Let_def split: option.splits)
  have 2: "settled (send m s) @ map (\<lambda>(n, m). (n, r)) ?pend
             = map (\<lambda>n. (n, r)) [0..<length (ms @ [m])]"
    using assms p(2) by (auto simp: resumed_def send_def Let_def split: option.splits promise.splits)
  have 3: "case r of None \<Rightarrow> sent (send m s) @ map snd ?pend = ms @ [m] | Some e \<Rightarrow> True"
    using assms p(3) by (auto simp: resumed_def send_def Let_def split: option.splits promise.splits)
  have 4: "connect (send m s) = (case r of None \<Rightarrow> Fulfilled | Some e \<Rightarrow> Rejected e)"
    "awaiting (send m s) = []" "calls (send m s) = length (ms @ [m])"
    "case r of None \<Rightarrow> readyState (send m s) = OPEN | Some e \<Rightarrow> sent (send m s) = []"
    using assms by (auto simp: resumed_def send_def Let_def split: option.splits promise.splits)
  from 1 2 3 4 show ?thesis unfolding resumed_def by blast
qed

lemma resumed_step:
  assumes "resumed r ms s" "sending a"
  shows "resumed r (ms @ messages [a]) (host sock s a)"
proof (cases a)
  case (Send m)
  with resumed_send [OF assms(1)] show ?thesis by simp
next
  case EndOfTask
  with resumed_checkpoint [OF assms(1)] show ?thesis by simp
qed (use assms in simp_all)

lemma resumed_steps:
  "resumed r ms s \<Longrightarrow> list_all sending as \<Longrightarrow>
     resumed r (ms @ messages as) (foldl (host sock) s as)"
proof (induction as arbitrary: ms s)
  case Nil then show ?case by simp
next
  case (Cons a as)
  from Cons.prems have "resumed r (ms @ messages [a]) (host sock s a)"
    by (simp add: resumed_step)
  from Cons.IH [OF this] Cons.prems(2) show ?case
    using messages_append [of "[a]" as] by simp
qed

lemma connecting_settle:
  assumes "connecting ms s"
  shows "resumed None ms (on_open s)" and "resumed (Some (Error text)) ms (on_error text s)"
proof -
  have z: "map (\<lambda>(n, m). (n, r)) (zip [0..<length ms] ms) = map (\<lambda>n. (n, r)) [0..<length ms]" for r :: "error option"
    by (rule nth_equalityI) simp_all
  have s: "map snd (zip [0..<length ms] ms) = ms" by simp
  show "resumed None ms (on_open s)"
    unfolding resumed_def using assms z [of None] s
    by (auto simp: connecting_def on_open_def settle_def)
  show "resumed (Some (Error text)) ms (on_error text s)"
    unfolding resumed_def using assms z [of "Some (Error text)"]
    by (auto simp: connecting_def on_error_def settle_def)
qed




text \<open>
  Claim C5. On a new transport, let the caller call \<open>send\<close> any number of times, in any
  number of tasks (\<open>pre\<close>), before the socket opens. Nothing is sent while the transport
  is connecting. When the socket's \<open>open\<close> event has been handled, all these messages
  have been handed to the socket, in call order, and all these calls have returned. Sends
  made after that (\<open>post\<close>) follow them, in call order. This holds whatever the socket's
  \<open>send\<close> does on a socket that is not open.
\<close>

theorem sends_before_open_in_call_order:
  assumes "list_all sending pre" and "list_all sending post"
  shows "sent (foldl (host sock) new_transport pre) = [] \<and>
         sent (foldl (host sock) new_transport (pre @ [WsOpen])) = messages pre \<and>
         settled (foldl (host sock) new_transport (pre @ [WsOpen]))
           = map (\<lambda>n. (n, None)) [0..<length (messages pre)] \<and>
         sent (foldl (host sock) new_transport (pre @ [WsOpen] @ post @ [EndOfTask]))
           = messages pre @ messages post"
proof -
  let ?s = "foldl (host sock) new_transport pre"
  from connecting_steps [OF connecting_new assms(1)] have c: "connecting (messages pre) ?s"
    by simp
  then have 1: "sent ?s = []" by (simp add: connecting_def)
  from connecting_settle(1) [OF c] have r: "resumed None (messages pre) (on_open ?s)" .
  from resumed_checkpoint [OF r, of sock]
  have o: "resumed None (messages pre) (host sock ?s WsOpen)"
    and 2: "sent (host sock ?s WsOpen) = messages pre"
    and 3: "settled (host sock ?s WsOpen) = map (\<lambda>n. (n, None)) [0..<length (messages pre)]"
    by simp_all
  from resumed_steps [OF o assms(2)]
  have "resumed None (messages pre @ messages post) (foldl (host sock) (host sock ?s WsOpen) post)" .
  from resumed_checkpoint [OF this, of sock]
  have 4: "sent (foldl (host sock) new_transport (pre @ [WsOpen] @ post @ [EndOfTask]))
           = messages pre @ messages post"
    by simp
  from 1 2 3 4 show ?thesis by simp
qed

theorem sends_before_open_in_call_order_witness:
  "list_all sending [Send ''a'', EndOfTask, Send ''b''] \<and> list_all sending [Send ''c''] \<and>
   sent (foldl (host (\<lambda>_. None)) new_transport [Send ''a'', EndOfTask, Send ''b'', WsOpen])
     = [''a'', ''b''] \<and>
   sent (foldl (host (\<lambda>_. None)) new_transport
          [Send ''a'', EndOfTask, Send ''b'', WsOpen, Send ''c'', EndOfTask])
     = [''a'', ''b'', ''c'']"
  using sends_before_open_in_call_order [of "[Send ''a'', EndOfTask, Send ''b'']" "[Send ''c'']" "\<lambda>_. None"]
  by simp



text \<open>
  The promise is rejected by the socket's \<open>error\<close> event only: were a socket to fire \<open>close\<close>
  without \<open>error\<close> while connecting, the waiting calls would stay unsettled.
\<close>

lemma close_without_error_leaves_sends_waiting:
  assumes "list_all sending pre"
  shows "settled (foldl (host sock) new_transport (pre @ [WsClose])) = [] \<and>
         awaiting (foldl (host sock) new_transport (pre @ [WsClose]))
           = zip [0..<length (messages pre)] (messages pre)"
proof -
  from connecting_steps [OF connecting_new assms, of sock]
  have "connecting (messages pre) (foldl (host sock) new_transport pre)" by simp
  then show ?thesis
    by (simp add: connecting_def on_close_def checkpoint_def)
qed

text \<open>
  For a socket that did open and closed later, \<open>send\<close> hands the message to the closed
  socket and ends as the socket's \<open>send\<close> does there.
\<close>

lemma send_after_open_then_close:
  "settled (foldl (host sock) new_transport [WsOpen, WsClose, Send m, EndOfTask])
     = [(0, sock CLOSED)] \<and>
   sent (foldl (host sock) new_transport [WsOpen, WsClose, Send m, EndOfTask]) = []"
  by (simp add: new_transport_def on_open_def on_close_def settle_def checkpoint_def send_def Let_def)

section \<open>Properties of the byte buffer\<close>

subsection \<open>UTF-8: decoding what was encoded\<close>

lemma utf8_decode_1:
  assumes "c < 0x80"
  shows "utf8_decode (utf8_bytes c @ bs) = map_option ((#) c) (utf8_decode bs)"
  using assms by (simp add: utf8_bytes_def)

lemma utf8_decode_two:
  assumes "2 \<le> a" "a < 0x20" "d < 0x40"
  shows "utf8_decode ((0xC0 + a) # (0x80 + d) # bs) = map_option ((#) (a * 0x40 + d)) (utf8_decode bs)"
  using assms by (simp add: continuation_def)

lemma utf8_decode_2:
  assumes "0x80 \<le> c" "c < 0x800"
  shows "utf8_decode (utf8_bytes c @ bs) = map_option ((#) c) (utf8_decode bs)"
proof -
  have d: "2 \<le> c div 0x40" "c div 0x40 < 0x20" using assms by arith+
  have m: "c mod 0x40 < 0x40" by simp
  have r: "c div 0x40 * 0x40 + c mod 0x40 = c" by simp
  have "utf8_bytes c = [0xC0 + c div 0x40, 0x80 + c mod 0x40]"
    using assms by (simp add: utf8_bytes_def)
  with utf8_decode_two [OF d m, of bs] r show ?thesis by simp
qed

lemma utf8_decode_three:
  assumes "a < 0x10" "b < 0x40" "d < 0x40" "a = 0 \<longrightarrow> 0x20 \<le> b" "a = 0xD \<longrightarrow> b < 0x20"
  shows "utf8_decode ((0xE0 + a) # (0x80 + b) # (0x80 + d) # bs)
           = map_option ((#) (a * 0x1000 + b * 0x40 + d)) (utf8_decode bs)"
proof -
  have 1: "\<not> 0xE0 + a < (0x80::nat)" "\<not> (0xC2 \<le> 0xE0 + a \<and> 0xE0 + a \<le> (0xDF::nat))"
    "0xE0 \<le> 0xE0 + a \<and> 0xE0 + a \<le> (0xEF::nat)" using assms(1) by simp_all
  have 2: "(if 0xE0 + a = (0xE0::nat) then 0xA0 else 0x80) \<le> 0x80 + b"
    using assms(4) by simp
  have 3: "0x80 + b \<le> (if 0xE0 + a = (0xED::nat) then 0x9F else 0xBF)"
    using assms(2,5) by auto
  have 4: "continuation (0x80 + d)" using assms(3) by (simp add: continuation_def)
  have 5: "(0xE0 + a - 0xE0) * 0x1000 + (0x80 + b - 0x80) * 0x40 + (0x80 + d - 0x80)
             = a * 0x1000 + b * 0x40 + d" by simp
  show ?thesis
    by (simp only: utf8_decode.simps 1 2 3 4 5 if_True if_False list.case simp_thms)
qed

lemma utf8_decode_3:
  assumes "0x800 \<le> c" "c < 0x10000" "c < 0xD800 \<or> 0xDFFF < c"
  shows "utf8_decode (utf8_bytes c @ bs) = map_option ((#) c) (utf8_decode bs)"
proof -
  define q where "q = c div 0x40"
  define a where "a = q div 0x40"
  define b where "b = q mod 0x40"
  define d where "d = c mod 0x40"
  have c: "c = q * 0x40 + d" "d < 0x40" unfolding q_def d_def by simp_all
  have q: "q = a * 0x40 + b" "b < 0x40" unfolding a_def b_def by simp_all
  have r: "a * 0x1000 + b * 0x40 + d = c" using c q by linarith
  have ra: "a < 0x10" using c q assms by linarith
  have lo: "a = 0 \<longrightarrow> 0x20 \<le> b" using c q assms by linarith
  have hi: "a = 0xD \<longrightarrow> b < 0x20" using c q assms by linarith
  have "c div 0x1000 = a" unfolding a_def q_def by (simp add: div_mult2_eq [symmetric])
  then have "utf8_bytes c = [0xE0 + a, 0x80 + b, 0x80 + d]"
    using assms by (simp add: utf8_bytes_def b_def d_def q_def)
  with utf8_decode_three [OF ra q(2) c(2) lo hi, of bs] r show ?thesis by simp
qed

lemma utf8_decode_four:
  assumes "a < 5" "b < 0x40" "d < 0x40" "e < 0x40" "a = 0 \<longrightarrow> 0x10 \<le> b" "a = 4 \<longrightarrow> b < 0x10"
  shows "utf8_decode ((0xF0 + a) # (0x80 + b) # (0x80 + d) # (0x80 + e) # bs)
           = map_option ((#) (a * 0x40000 + b * 0x1000 + d * 0x40 + e)) (utf8_decode bs)"
proof -
  have 1: "\<not> 0xF0 + a < (0x80::nat)" "\<not> (0xC2 \<le> 0xF0 + a \<and> 0xF0 + a \<le> (0xDF::nat))"
    "\<not> (0xE0 \<le> 0xF0 + a \<and> 0xF0 + a \<le> (0xEF::nat))"
    "0xF0 \<le> 0xF0 + a \<and> 0xF0 + a \<le> (0xF4::nat)" using assms(1) by simp_all
  have 2: "(if 0xF0 + a = (0xF0::nat) then 0x90 else 0x80) \<le> 0x80 + b"
    using assms(5) by simp
  have 3: "0x80 + b \<le> (if 0xF0 + a = (0xF4::nat) then 0x8F else 0xBF)"
    using assms(2,6) by auto
  have 4: "continuation (0x80 + d)" "continuation (0x80 + e)"
    using assms(3,4) by (simp_all add: continuation_def)
  have 5: "(0xF0 + a - 0xF0) * 0x40000 + (0x80 + b - 0x80) * 0x1000 + (0x80 + d - 0x80) * 0x40
             + (0x80 + e - 0x80) = a * 0x40000 + b * 0x1000 + d * 0x40 + e" by simp
  show ?thesis
    by (simp only: utf8_decode.simps 1 2 3 4 5 if_True if_False list.case simp_thms)
qed

lemma utf8_decode_4:
  assumes "0x10000 \<le> c" "c < 0x110000"
  shows "utf8_decode (utf8_bytes c @ bs) = map_option ((#) c) (utf8_decode bs)"
proof -
  define q where "q = c div 0x40"
  define p where "p = q div 0x40"
  define a where "a = p div 0x40"
  define b where "b = p mod 0x40"
  define d where "d = q mod 0x40"
  define e where "e = c mod 0x40"
  have c: "c = q * 0x40 + e" "e < 0x40" unfolding q_def e_def by simp_all
  have q: "q = p * 0x40 + d" "d < 0x40" unfolding p_def d_def by simp_all
  have p: "p = a * 0x40 + b" "b < 0x40" unfolding a_def b_def by simp_all
  have r: "a * 0x40000 + b * 0x1000 + d * 0x40 + e = c" using c q p by linarith
  have ra: "a < 5" using c q p assms by linarith
  have lo: "a = 0 \<longrightarrow> 0x10 \<le> b" using c q p assms by linarith
  have hi: "a = 4 \<longrightarrow> b < 0x10" using c q p assms by linarith
  have 1: "c div 0x1000 = p" unfolding p_def q_def by (simp add: div_mult2_eq [symmetric])
  have 2: "c div 0x40000 = a" unfolding a_def p_def q_def by (simp add: div_mult2_eq [symmetric])
  have "utf8_bytes c = [0xF0 + a, 0x80 + b, 0x80 + d, 0x80 + e]"
    using assms 1 2 by (simp add: utf8_bytes_def b_def d_def e_def q_def)
  with utf8_decode_four [OF ra p(2) q(2) c(2) lo hi, of bs] r show ?thesis by simp
qed

lemma utf8_decode_scalar:
  assumes "scalar c"
  shows "utf8_decode (utf8_bytes c @ bs) = map_option ((#) c) (utf8_decode bs)"
proof -
  consider "c < 0x80" | "0x80 \<le> c" "c < 0x800" | "0x800 \<le> c" "c < 0x10000" | "0x10000 \<le> c"
    by linarith
  then show ?thesis
  proof cases
    case 1 then show ?thesis by (rule utf8_decode_1)
  next
    case 2 then show ?thesis by (rule utf8_decode_2)
  next
    case 3 with assms show ?thesis by (intro utf8_decode_3) (auto simp: scalar_def)
  next
    case 4 with assms show ?thesis by (intro utf8_decode_4) (auto simp: scalar_def)
  qed
qed

lemma utf8_decode_encode:
  "list_all scalar cs \<Longrightarrow> utf8_decode (concat (map utf8_bytes cs)) = Some cs"
  by (induction cs) (simp_all add: utf8_decode_scalar)


lemma unat16_bound: "unat (u :: unit16) < 0x10000"
  using unsigned_less [of u, where 'a = nat] by simp

lemma divmod_1024:
  assumes "y < (0x400::nat)"
  shows "(x * 0x400 + y) div 0x400 = x" and "(x * 0x400 + y) mod 0x400 = y"
  using assms by simp_all

lemma utf16_units_pair:
  assumes "is_high u" "is_low v"
  shows "utf16_units (0x10000 + (unat u - 0xD800) * 0x400 + (unat v - 0xDC00)) = [u, v]"
    and "scalar (0x10000 + (unat u - 0xD800) * 0x400 + (unat v - 0xDC00))"
proof -
  define x where "x = unat u - 0xD800"
  define y where "y = unat v - 0xDC00"
  have x: "0xD800 + x = unat u" "x < 0x400" using assms(1) by (auto simp: is_high_def x_def)
  have y: "0xDC00 + y = unat v" "y < 0x400" using assms(2) by (auto simp: is_low_def y_def)
  have "utf16_units (0x10000 + x * 0x400 + y) = [of_nat (0xD800 + x), of_nat (0xDC00 + y)]"
    using divmod_1024 [OF y(2), of x] by (simp add: utf16_units_def)
  also have "\<dots> = [u, v]" unfolding x(1) y(1) by simp
  finally show "utf16_units (0x10000 + (unat u - 0xD800) * 0x400 + (unat v - 0xDC00)) = [u, v]"
    by (simp add: x_def y_def)
  have "x * 0x400 + y < 0x100000" using x(2) y(2) by linarith
  then show "scalar (0x10000 + (unat u - 0xD800) * 0x400 + (unat v - 0xDC00))"
    by (simp add: scalar_def x_def y_def)
qed

lemma utf16_units_single:
  assumes "\<not> is_high u" "\<not> is_low u"
  shows "utf16_units (unat u) = [u]" and "scalar (unat u)"
  using assms unat16_bound [of u]
  by (auto simp: utf16_units_def scalar_def is_high_def is_low_def)

lemma utf16_scalar_values:
  "well_formed s \<Longrightarrow>
     list_all scalar (scalar_values s) \<and> concat (map utf16_units (scalar_values s)) = s"
proof (induction s rule: scalar_values.induct)
  case 1
  then show ?case by simp
next
  case (2 u)
  then show ?case by (simp add: utf16_units_single)
next
  case (3 u v us)
  show ?case
  proof (cases "is_high u")
    case True
    with "3.prems" have v: "is_low v" and w: "well_formed us" by simp_all
    from "3.IH"(1) True v w utf16_units_pair [OF True v] show ?thesis by simp
  next
    case False
    with "3.prems" have l: "\<not> is_low u" and w: "well_formed (v # us)" by simp_all
    from "3.IH"(2) False l w utf16_units_single [OF False l] show ?thesis by simp
  qed
qed

lemma unat_FEFF: "unat (u :: unit16) = 0xFEFF \<Longrightarrow> u = 0xFEFF"
proof -
  assume "unat u = 0xFEFF"
  then have "(of_nat (unat u) :: unit16) = of_nat 0xFEFF" by simp
  then show ?thesis by simp
qed

lemma no_BOM:
  assumes "take 1 s \<noteq> [0xFEFF]"
  shows "strip_BOM (scalar_values s) = scalar_values s"
proof (cases s rule: scalar_values.cases)
  case 1
  then show ?thesis by (simp add: strip_BOM_def)
next
  case (2 u)
  with assms have "unat u \<noteq> 0xFEFF" using unat_FEFF by auto
  with 2 show ?thesis by (simp add: strip_BOM_def)
next
  case (3 u v us)
  with assms have "unat u \<noteq> 0xFEFF" using unat_FEFF by auto
  with 3 show ?thesis by (simp add: strip_BOM_def)
qed

lemma utf8_bytes_range: "c < 0x110000 \<Longrightarrow> b \<in> set (utf8_bytes c) \<Longrightarrow> b < 256"
proof -
  assume c: "c < 0x110000" and b: "b \<in> set (utf8_bytes c)"
  have m: "c mod 0x40 < 0x40" "c div 0x40 mod 0x40 < 0x40" "c div 0x1000 mod 0x40 < 0x40"
    by simp_all
  have d: "c < 0x800 \<Longrightarrow> c div 0x40 < 0x20" "c < 0x10000 \<Longrightarrow> c div 0x1000 < 0x10"
    "c div 0x40000 < 5"
    using c by (simp_all add: div_less_iff_less_mult)
  from b consider "c < 0x80" "b = c"
    | "c < 0x800" "b = 0xC0 + c div 0x40 \<or> b = 0x80 + c mod 0x40"
    | "c < 0x10000" "b = 0xE0 + c div 0x1000 \<or> b = 0x80 + c div 0x40 mod 0x40 \<or> b = 0x80 + c mod 0x40"
    | "b = 0xF0 + c div 0x40000 \<or> b = 0x80 + c div 0x1000 mod 0x40 \<or>
         b = 0x80 + c div 0x40 mod 0x40 \<or> b = 0x80 + c mod 0x40"
    by (auto simp: utf8_bytes_def split: if_splits)
  then show ?thesis
  proof cases
    case 1 then show ?thesis by simp
  next
    case 2 with m d(1) show ?thesis by linarith
  next
    case 3 with m d(2) show ?thesis by linarith
  next
    case 4 with m d(3) show ?thesis by linarith
  qed
qed

lemma unat_byte_of_nat: "b < 256 \<Longrightarrow> unat (of_nat b :: byte) = b"
  by (simp add: unat_of_nat)

lemma bytes_of_nats:
  "\<forall>b \<in> set bs. b < 256 \<Longrightarrow> map unat (map of_nat bs :: byte list) = bs"
  by (induction bs) (simp_all add: unat_byte_of_nat)

lemma utf8_bytes_of_scalars:
  assumes "list_all scalar cs"
  shows "map unat (map of_nat (concat (map utf8_bytes cs)) :: byte list)
           = concat (map utf8_bytes cs)"
proof (rule bytes_of_nats, rule ballI)
  fix b assume "b \<in> set (concat (map utf8_bytes cs))"
  then obtain c where c: "c \<in> set cs" "b \<in> set (utf8_bytes c)" by auto
  with assms have r: "c < 0x110000" by (auto simp: list_all_iff scalar_def)
  show "b < 256" by (rule utf8_bytes_range [OF r c(2)])
qed

lemma utf8_round_trip:
  assumes "well_formed s" and "take 1 s \<noteq> [0xFEFF]"
  shows "utf8_decoder (TextEncoder_encode s) = Inr s"
proof -
  from utf16_scalar_values [OF assms(1)]
  have sc: "list_all scalar (scalar_values s)"
    and u: "concat (map utf16_units (scalar_values s)) = s" by simp_all
  have "utf8_decode (map unat (TextEncoder_encode s)) = Some (scalar_values s)"
    unfolding TextEncoder_encode_def utf8_bytes_of_scalars [OF sc]
    by (rule utf8_decode_encode [OF sc])
  then show ?thesis
    by (simp add: utf8_decoder_def no_BOM [OF assms(2)] u)
qed


subsection \<open>The 16-bit view and base64\<close>

lemma uint16_elements_bytes: "uint16_elements (uint16_bytes us) = us"
proof (induction us)
  case Nil
  then show ?case by (simp add: uint16_bytes_def)
next
  case (Cons u us)
  have d: "unat u div 256 < 256" using unat16_bound [of u] by (simp add: div_less_iff_less_mult)
  have m: "unat u mod 256 < 256" by simp
  have "unat (of_nat (unat u mod 256) :: byte) + 256 * unat (of_nat (unat u div 256) :: byte)
          = unat u"
    unfolding unat_byte_of_nat [OF d] unat_byte_of_nat [OF m] by simp
  with Cons show ?case by (simp add: uint16_bytes_def)
qed

lemma length_uint16_bytes: "length (uint16_bytes us) = 2 * length us"
  by (induction us) (simp_all add: uint16_bytes_def)

lemma Uint16Array_bytes: "Uint16Array (uint16_bytes us) = Inr us"
  by (simp add: Uint16Array_def length_uint16_bytes uint16_elements_bytes)

lemma length_uint16_elements: "length (uint16_elements bs) = length bs div 2"
  by (induction bs rule: uint16_elements.induct) simp_all

lemma toString_base64_long:
  assumes "length (data b) mod 2 = 0" and "limit < length (data b) div 2"
  shows "toString others limit b ''base64'' = Inl RangeError"
  using assms
  by (simp add: toString_def Uint16Array_def fromCharCode_spread_def length_uint16_elements)

lemma alphabet_index_alphabet: "i < 64 \<Longrightarrow> alphabet_index (alphabet i) = Some i"
  by (auto simp: alphabet_def alphabet_index_def)

lemma alphabet_plain: "i < 64 \<Longrightarrow> alphabet i \<noteq> 61 \<and> \<not> ascii_whitespace (alphabet i) \<and> alphabet i < 128"
  by (auto simp: alphabet_def ascii_whitespace_def)

lemma base64_encode_sextets:
  "base64_encode bs = map alphabet (sextets bs) @ padding bs"
  by (induction bs rule: sextets.induct) simp_all

lemma sextets_range:
  "\<forall>b \<in> set bs. b < 256 \<Longrightarrow> \<forall>x \<in> set (sextets bs). x < 64"
proof (induction bs rule: sextets.induct)
  case (1 a b c bs)
  have "a div 4 < 64" "b div 16 < 16" "c div 64 < 4" "a mod 4 < 4" "b mod 16 < 16" "c mod 64 < 64"
    using "1.prems" by (simp_all add: div_less_iff_less_mult)
  then have "a div 4 < 64" "a mod 4 * 16 + b div 16 < 64" "b mod 16 * 4 + c div 64 < 64"
    "c mod 64 < 64" by linarith+
  with 1 show ?case by simp
next
  case (2 a b)
  have "a div 4 < 64" "b div 16 < 16" "a mod 4 < 4" "b mod 16 < 16"
    using "2.prems" by (simp_all add: div_less_iff_less_mult)
  then have "a div 4 < 64" "a mod 4 * 16 + b div 16 < 64" "b mod 16 * 4 < 64" by linarith+
  then show ?case by simp
next
  case (3 a)
  have "a div 4 < 64" "a mod 4 < 4"
    using "3.prems" by (simp_all add: div_less_iff_less_mult)
  then have "a div 4 < 64" "a mod 4 * 16 < 64" by linarith+
  then show ?case by simp
next
  case 4
  then show ?case by simp
qed

lemma divmod_small:
  fixes x y n :: nat
  assumes "y < n"
  shows "(x * n + y) div n = x" and "(x * n + y) mod n = y"
  using assms by simp_all

lemma sextet_bytes_three:
  fixes a b c :: nat
  assumes "b < 256" "c < 256"
  shows "(a div 4) * 4 + (a mod 4 * 16 + b div 16) div 16 = a"
    and "(a mod 4 * 16 + b div 16) mod 16 * 16 + (b mod 16 * 4 + c div 64) div 4 = b"
    and "(b mod 16 * 4 + c div 64) mod 4 * 64 + c mod 64 = c"
proof -
  have b: "b div 16 < 16" using assms(1) by (simp add: div_less_iff_less_mult)
  have c: "c div 64 < 4" using assms(2) by (simp add: div_less_iff_less_mult)
  show "(a div 4) * 4 + (a mod 4 * 16 + b div 16) div 16 = a"
    unfolding divmod_small(1) [OF b] by simp
  show "(a mod 4 * 16 + b div 16) mod 16 * 16 + (b mod 16 * 4 + c div 64) div 4 = b"
    unfolding divmod_small(2) [OF b] divmod_small(1) [OF c] by simp
  show "(b mod 16 * 4 + c div 64) mod 4 * 64 + c mod 64 = c"
    unfolding divmod_small(2) [OF c] by simp
qed

lemma sextet_bytes_sextets:
  "\<forall>b \<in> set bs. b < 256 \<Longrightarrow> sextet_bytes (sextets bs) = bs"
proof (induction bs rule: sextets.induct)
  case (1 a b c bs)
  then have r: "b < 256" "c < 256" by simp_all
  from 1 sextet_bytes_three [OF r] show ?case by simp
next
  case (2 a b)
  then have r: "b < 256" "(0::nat) < 256" by simp_all
  from sextet_bytes_three(1,2) [OF r] show ?case by simp
next
  case (3 a)
  have r: "(0::nat) < 256" by simp
  from sextet_bytes_three(1) [OF r r] show ?case by simp
next
  case 4
  then show ?case by simp
qed

lemma length_base64: "length (map alphabet (sextets bs) @ padding bs) mod 4 = 0"
  by (induction bs rule: sextets.induct) simp_all

lemma length_sextets: "length (sextets bs) mod 4 \<noteq> 1"
  by (induction bs rule: sextets.induct) simp_all

lemma padding_cases:
  "padding bs = [] \<or> (padding bs = [61] \<and> sextets bs \<noteq> []) \<or> (padding bs = [61, 61] \<and> sextets bs \<noteq> [])"
  by (induction bs rule: sextets.induct) auto

lemma strip_padding_base64:
  assumes "\<forall>x \<in> set xs. x < 64"
    and "length (map alphabet xs @ pad) mod 4 = 0"
    and "pad = [] \<or> (pad = [61] \<and> xs \<noteq> []) \<or> (pad = [61, 61] \<and> xs \<noteq> [])"
  shows "strip_padding (map alphabet xs @ pad) = map alphabet xs"
proof -
  have l: "xs \<noteq> [] \<Longrightarrow> last (map alphabet xs) \<noteq> 61"
    using assms(1) alphabet_plain by (simp add: last_map)
  from assms(3) consider "pad = []" | "pad = [61]" "xs \<noteq> []" | "pad = [61, 61]" "xs \<noteq> []"
    by blast
  then show ?thesis
  proof cases
    case 1
    with l show ?thesis by (cases "xs = []") (simp_all add: strip_padding_def)
  next
    case 2
    with l assms(2) show ?thesis by (simp add: strip_padding_def butlast_append)
  next
    case 3
    with assms(2) show ?thesis by (simp add: strip_padding_def butlast_append)
  qed
qed

lemma unat16_of_nat: "c < 0x10000 \<Longrightarrow> unat (of_nat c :: unit16) = c"
  by (simp add: unat_of_nat)

lemma atob_base64_encode:
  assumes "\<forall>b \<in> set bs. b < 256"
  shows "atob (map of_nat (base64_encode bs)) = Inr (map of_nat bs)"
proof -
  let ?xs = "sextets bs"
  let ?cs = "map alphabet ?xs @ padding bs"
  note r = sextets_range [OF assms]
  have small: "\<forall>c \<in> set ?cs. c < 128"
    using r alphabet_plain padding_cases [of bs] by auto
  have u: "c < 128 \<Longrightarrow> unat (of_nat c :: unit16) = c" for c
    by (simp add: unat16_of_nat)
  have "map unat (map of_nat ?cs :: unit16 list) = map id ?cs"
    unfolding map_map by (rule map_cong [OF refl]) (use small u in auto)
  then have 1: "map unat (map of_nat ?cs :: unit16 list) = ?cs" by simp
  have 2: "filter (\<lambda>c. \<not> ascii_whitespace c) ?cs = ?cs"
    using r alphabet_plain padding_cases [of bs]
    by (auto simp: filter_id_conv ascii_whitespace_def)
  have 3: "strip_padding ?cs = map alphabet ?xs"
    by (rule strip_padding_base64 [OF r length_base64 padding_cases])
  have 4: "length (map alphabet ?xs) mod 4 \<noteq> 1" using length_sextets [of bs] by simp
  have 5: "list_all (\<lambda>c. alphabet_index c \<noteq> None) (map alphabet ?xs)"
    using r by (simp add: list_all_iff alphabet_index_alphabet)
  have 6: "map (\<lambda>c. the (alphabet_index c)) (map alphabet ?xs) = ?xs"
    using r by (simp add: map_idI alphabet_index_alphabet)
  show ?thesis
    unfolding atob_def base64_encode_sextets 1 2 3 Let_def
    using 4 5 6 sextet_bytes_sextets [OF assms] by simp
qed


lemma unat8_bound: "unat (b :: byte) < 256"
  using unsigned_less [of b, where 'a = nat] by simp

lemma unat_binary_string: "map unat (binary_string bytes) = map unat bytes"
proof -
  have "unat (ucast b :: unit16) = unat b" for b :: byte
  proof -
    have "unat (ucast b :: unit16) = take_bit 16 (unat b)" by (simp add: unsigned_ucast_eq)
    also have "\<dots> = unat b" using unat8_bound [of b] by (simp add: take_bit_nat_eq_self)
    finally show ?thesis .
  qed
  then show ?thesis by (simp add: binary_string_def)
qed

subsection \<open>The round trips\<close>

text \<open>
  Where the round trip holds. For every well-formed string \<open>s\<close> that does not start with
  U+FEFF, the buffer made from \<open>s\<close> with \<open>utf8\<close> gives \<open>s\<close> back from \<open>toString(utf8)\<close>. For
  a byte sequence of at most \<open>limit\<close> bytes, with \<open>t\<close> its base64 text (\<open>btoa\<close> of the string
  of these bytes), the buffer made from \<open>t\<close> with \<open>base64\<close> gives \<open>t\<close> back from
  \<open>toString(base64)\<close>.
\<close>

lemma text_round_trip:
  assumes "well_formed s" and "take 1 s \<noteq> [0xFEFF]" and "length bytes \<le> limit"
  shows "(\<exists>b. BufferImpl_new (FromString s) ''utf8'' = Inr b \<and>
              toString others limit b ''utf8'' = Inr s) \<and>
         (\<exists>t b. btoa (binary_string bytes) = Inr t \<and>
                BufferImpl_new (FromString t) ''base64'' = Inr b \<and>
                toString others limit b ''base64'' = Inr t)"
proof -
  have u: "toString others limit \<lparr>data = TextEncoder_encode s\<rparr> ''utf8'' = Inr s"
    using utf8_round_trip [OF assms(1,2)]
    by (simp add: toString_def TextDecoder_def utf8_labels_def)
  have 1: "\<exists>b. BufferImpl_new (FromString s) ''utf8'' = Inr b \<and>
               toString others limit b ''utf8'' = Inr s"
    using u by (simp add: BufferImpl_new_def)
  define binary :: "unit16 list" where "binary = binary_string bytes"
  define bs where "bs = map unat bytes"
  define t :: "unit16 list" where "t = map of_nat (base64_encode bs)"
  have r: "\<forall>b \<in> set bs. b < 256"
    unfolding bs_def using unat8_bound by auto
  have ub: "map unat binary = bs"
    unfolding binary_def bs_def by (rule unat_binary_string)
  have lb: "length binary \<le> limit"
    using assms(3) by (simp add: binary_def binary_string_def)
  have ok: "list_all (\<lambda>u. unat u \<le> 0xFF) binary"
    unfolding list_all_iff
  proof
    fix u assume "u \<in> set binary"
    then have "unat u \<in> set bs" unfolding ub [symmetric] by simp
    with r show "unat u \<le> 0xFF" by fastforce
  qed
  have b: "btoa binary = Inr t"
    using ok by (simp add: btoa_def ub t_def)
  have "map of_nat bs = binary"
    unfolding ub [symmetric] by (simp add: map_idI)
  with atob_base64_encode [OF r] have a: "atob t = Inr binary" by (simp add: t_def)
  have n: "BufferImpl_new (FromString t) ''base64'' = Inr \<lparr>data = uint16_bytes binary\<rparr>"
    using a by (simp add: BufferImpl_new_def)
  have s: "toString others limit \<lparr>data = uint16_bytes binary\<rparr> ''base64'' = Inr t"
    using b lb by (simp add: toString_def Uint16Array_bytes fromCharCode_spread_def)
  from b n s have 2: "\<exists>t b. btoa (binary_string bytes) = Inr t \<and>
                BufferImpl_new (FromString t) ''base64'' = Inr b \<and>
                toString others limit b ''base64'' = Inr t"
    unfolding binary_def by blast
  from 1 2 show ?thesis ..
qed

text \<open>
  Claim C3 fails on the code, at these inputs, on a host that takes 65536 arguments in a
  call. A text that starts with U+FEFF loses it: the string \<open>U+FEFF A\<close> is stored as the
  bytes \<open>EF BB BF 41\<close> and read back as \<open>A\<close>, because the decoder drops a leading byte order
  mark. A buffer that holds the single byte 1 cannot be written as base64 (the 16-bit view
  over one byte is refused), a buffer that holds the bytes 1, 2 neither (\<open>btoa\<close> refuses the
  code unit \<open>0x0201\<close>), and the buffer made from the base64 text \<open>AQ==\<close> of the byte 1 holds
  the two bytes 1, 0. A buffer of 1000000 bytes cannot be written as base64 either: its
  500000 elements are more arguments than the host takes.
\<close>

theorem buffer_round_trip_failing_inputs:
  "well_formed [0xFEFF, 0x41] \<and>
   BufferImpl_new (FromString [0xFEFF, 0x41]) ''utf8'' = Inr \<lparr>data = [0xEF, 0xBB, 0xBF, 0x41]\<rparr> \<and>
   toString (\<lambda>_. None) 65536 \<lparr>data = [0xEF, 0xBB, 0xBF, 0x41]\<rparr> ''utf8'' = Inr [0x41] \<and>
   toString (\<lambda>_. None) 65536 \<lparr>data = [1]\<rparr> ''base64'' = Inl RangeError \<and>
   toString (\<lambda>_. None) 65536 \<lparr>data = [1, 2]\<rparr> ''base64'' = Inl InvalidCharacterError \<and>
   BufferImpl_new (FromString [0x41, 0x51, 0x3D, 0x3D]) ''base64'' = Inr \<lparr>data = [1, 0]\<rparr> \<and>
   toString (\<lambda>_. None) 65536 \<lparr>data = replicate 1000000 0\<rparr> ''base64'' = Inl RangeError"
proof -
  have 1: "well_formed [0xFEFF, 0x41]" by (simp add: is_high_def is_low_def)
  have 2: "BufferImpl_new (FromString [0xFEFF, 0x41]) ''utf8'' = Inr \<lparr>data = [0xEF, 0xBB, 0xBF, 0x41]\<rparr>"
    by (simp add: BufferImpl_new_def TextEncoder_encode_def utf8_bytes_def is_high_def is_low_def)
  have 3: "toString (\<lambda>_. None) 65536 \<lparr>data = [0xEF, 0xBB, 0xBF, 0x41]\<rparr> ''utf8'' = Inr [0x41]"
    by (simp add: toString_def TextDecoder_def utf8_labels_def utf8_decoder_def strip_BOM_def
        utf16_units_def continuation_def)
  have 4: "toString (\<lambda>_. None) 65536 \<lparr>data = [1]\<rparr> ''base64'' = Inl RangeError"
    by (simp add: toString_def Uint16Array_def)
  have 5: "toString (\<lambda>_. None) 65536 \<lparr>data = [1, 2]\<rparr> ''base64'' = Inl InvalidCharacterError"
    by (simp add: toString_def Uint16Array_def fromCharCode_spread_def btoa_def)
  have 6: "BufferImpl_new (FromString [0x41, 0x51, 0x3D, 0x3D]) ''base64'' = Inr \<lparr>data = [1, 0]\<rparr>"
    by (simp add: BufferImpl_new_def atob_def strip_padding_def ascii_whitespace_def
        alphabet_index_def uint16_bytes_def Let_def)
  have l: "length (data \<lparr>data = replicate 1000000 (0 :: byte)\<rparr>) = 1000000"
    by simp
  have 7: "toString (\<lambda>_. None) 65536 \<lparr>data = replicate 1000000 0\<rparr> ''base64'' = Inl RangeError"
    by (rule toString_base64_long) (simp_all only: l, simp_all)
  from 1 2 3 4 5 6 7 show ?thesis by blast
qed

subsection \<open>Encodings\<close>

text \<open>
  Claim C9, as stated, fails on the code: \<open>toString\<close> with the encoding \<open>utf-8\<close>, which is
  neither \<open>utf8\<close> nor \<open>base64\<close>, does not fail; it decodes the bytes as UTF-8.
\<close>

theorem unsupported_encoding_counterexample:
  "''utf-8'' \<noteq> ''utf8'' \<and> ''utf-8'' \<noteq> ''base64'' \<and>
   toString (\<lambda>_. None) 65536 \<lparr>data = [0x41]\<rparr> ''utf-8'' = Inr [0x41]"
  by (simp add: toString_def TextDecoder_def utf8_labels_def utf8_decoder_def strip_BOM_def
      utf16_units_def)

text \<open>
  Claim C9, amended. For an encoding other than \<open>utf8\<close> and \<open>base64\<close>: the constructor,
  given a string, fails with the error \<open>Unsupported encoding\<close> that names the encoding.
  \<open>toString\<close> checks nothing itself: it hands the encoding to the host's \<open>TextDecoder\<close> as a
  label and fails with the decoder's \<open>RangeError\<close> when the host does not know the label;
  for a label of UTF-8 it decodes the bytes as UTF-8.
\<close>

theorem unsupported_encoding:
  assumes "encoding \<noteq> ''utf8''" and "encoding \<noteq> ''base64''"
  shows "BufferImpl_new (FromString s) encoding
           = Inl (Error (''Unsupported encoding '' @ [CHR 0x22] @ encoding @ [CHR 0x22])) \<and>
         toString others limit b encoding
           = (case TextDecoder others encoding of
                Inl e \<Rightarrow> Inl e
              | Inr decoder \<Rightarrow> decoder (data b)) \<and>
         (encoding \<notin> set utf8_labels \<and> others encoding = None
            \<longrightarrow> toString others limit b encoding = Inl RangeError) \<and>
         (encoding \<in> set utf8_labels \<longrightarrow> toString others limit b encoding = utf8_decoder (data b))"
  using assms by (simp add: BufferImpl_new_def toString_def TextDecoder_def)

theorem unsupported_encoding_witness:
  "''hex'' \<noteq> ''utf8'' \<and> ''hex'' \<noteq> ''base64'' \<and>
   BufferImpl_new (FromString [0x41]) ''hex''
     = Inl (Error (''Unsupported encoding '' @ [CHR 0x22] @ ''hex'' @ [CHR 0x22])) \<and>
   toString (\<lambda>_. None) 65536 \<lparr>data = [0x41]\<rparr> ''hex'' = Inl RangeError"
proof -
  have 1: "''hex'' \<noteq> ''utf8''" "''hex'' \<noteq> ''base64''" "''hex'' \<notin> set utf8_labels"
    by (simp_all add: utf8_labels_def)
  from unsupported_encoding [OF 1(1,2), of "[0x41]" "\<lambda>_. None" 65536 "\<lparr>data = [0x41]\<rparr>"]
  have c: "BufferImpl_new (FromString [0x41]) ''hex''
             = Inl (Error (''Unsupported encoding '' @ [CHR 0x22] @ ''hex'' @ [CHR 0x22]))"
    and t: "''hex'' \<notin> set utf8_labels \<and> (\<lambda>_. None) ''hex'' = None
             \<longrightarrow> toString (\<lambda>_. None) 65536 \<lparr>data = [0x41]\<rparr> ''hex'' = Inl RangeError"
    by blast+
  from t 1(3) have "toString (\<lambda>_. None) 65536 \<lparr>data = [0x41]\<rparr> ''hex'' = Inl RangeError" by simp
  with c 1(1,2) show ?thesis by blast
qed

subsection \<open>Concatenation\<close>

lemma foldl_byteLength:
  "foldl (\<lambda>a b. a + byteLength (h ! b)) n bs = n + length (concat (map (\<lambda>b. data (h ! b)) bs))"
  by (induction bs arbitrary: n) (simp_all add: byteLength_def)

lemma copy_all_concat:
  "offset + length (concat (map (\<lambda>b. data (h ! b)) bs)) \<le> length view \<Longrightarrow>
     copy_all h bs view offset =
       Inr (take offset view @ concat (map (\<lambda>b. data (h ! b)) bs) @
            drop (offset + length (concat (map (\<lambda>b. data (h ! b)) bs))) view)"
proof (induction bs arbitrary: view offset)
  case Nil
  then show ?case by simp
next
  case (Cons b bs)
  let ?src = "data (h ! b)"
  let ?rest = "concat (map (\<lambda>b. data (h ! b)) bs)"
  let ?view = "take offset view @ ?src @ drop (offset + length ?src) view"
  from Cons.prems have le: "offset + length ?src + length ?rest \<le> length view" by simp
  then have s: "view_set view ?src offset = Inr ?view" by (simp add: view_set_def)
  have len: "length ?view = length view" using le by simp
  have t: "take (offset + length ?src) ?view = take offset view @ ?src" using le by simp
  have d: "drop (offset + length ?src + length ?rest) ?view
             = drop (offset + length ?src + length ?rest) view"
    using le by (simp add: ac_simps)
  have "offset + length ?src + length ?rest \<le> length ?view" using le len by simp
  from Cons.IH [OF this]
  have ih: "copy_all h bs ?view (offset + length ?src) =
              Inr (take (offset + length ?src) ?view @ ?rest @
                   drop (offset + length ?src + length ?rest) ?view)" .
  have "copy_all h (b # bs) view offset = copy_all h bs ?view (offset + length ?src)"
    using s by (simp add: byteLength_def)
  also have "\<dots> = Inr ((take offset view @ ?src) @ ?rest @
                        drop (offset + length ?src + length ?rest) view)"
    unfolding ih t d ..
  finally show ?case by (simp add: add.assoc)
qed


text \<open>
  Claim C7. \<open>concat([])\<close> allocates a new buffer of byte length 0. \<open>concat([b])\<close> returns the
  address \<open>b\<close> itself and allocates nothing. \<open>concat\<close> of two buffers or more (\<open>bs\<close>, valid
  addresses) allocates a new buffer, at an address no buffer had, that holds the bytes of
  the buffers in list order; its byte length is the sum of their byte lengths; the
  buffers that existed are unchanged.
\<close>

theorem concat_empty_single_many:
  assumes "2 \<le> length bs" and "list_all (\<lambda>b. b < length h) (b # bs)"
  shows "BufferImpl_concat h [] = Inr (length h, h @ [\<lparr>data = []\<rparr>]) \<and>
         byteLength ((h @ [\<lparr>data = []\<rparr>]) ! length h) = 0 \<and>
         BufferImpl_concat h [b] = Inr (b, h) \<and>
         BufferImpl_concat h bs
           = Inr (length h, h @ [\<lparr>data = concat (map (\<lambda>b. data (h ! b)) bs)\<rparr>]) \<and>
         byteLength ((h @ [\<lparr>data = concat (map (\<lambda>b. data (h ! b)) bs)\<rparr>]) ! length h)
           = sum_list (map (\<lambda>b. byteLength (h ! b)) bs) \<and>
         (\<forall>r < length h. (h @ [\<lparr>data = concat (map (\<lambda>b. data (h ! b)) bs)\<rparr>]) ! r = h ! r)"
proof -
  let ?all = "concat (map (\<lambda>b. data (h ! b)) bs)"
  have 1: "BufferImpl_concat h [] = Inr (length h, h @ [\<lparr>data = []\<rparr>])"
    by (simp add: BufferImpl_concat_def alloc_def)
  have 2: "BufferImpl_concat h [b] = Inr (b, h)"
    by (simp add: BufferImpl_concat_def)
  have "copy_all h bs (replicate (length ?all) 0) 0 = Inr ?all"
    using copy_all_concat [of 0 h bs "replicate (length ?all) 0"] by simp
  with assms(1) have 3: "BufferImpl_concat h bs = Inr (length h, h @ [\<lparr>data = ?all\<rparr>])"
    by (simp add: BufferImpl_concat_def foldl_byteLength alloc_def)
  have 4: "byteLength ((h @ [\<lparr>data = ?all\<rparr>]) ! length h)
             = sum_list (map (\<lambda>b. byteLength (h ! b)) bs)"
    by (simp add: byteLength_def length_concat comp_def)
  have 5: "\<forall>r < length h. (h @ [\<lparr>data = ?all\<rparr>]) ! r = h ! r"
    by (simp add: nth_append)
  from 1 2 3 4 5 show ?thesis by (simp add: byteLength_def)
qed

theorem concat_empty_single_many_witness:
  "2 \<le> length [0, 1, 0 :: nat] \<and>
   list_all (\<lambda>b. b < length [\<lparr>data = [1, 2]\<rparr>, \<lparr>data = [3]\<rparr>]) [1, 0, 1, 0] \<and>
   BufferImpl_concat [\<lparr>data = [1, 2]\<rparr>, \<lparr>data = [3]\<rparr>] [1] = Inr (1, [\<lparr>data = [1, 2]\<rparr>, \<lparr>data = [3]\<rparr>]) \<and>
   BufferImpl_concat [\<lparr>data = [1, 2]\<rparr>, \<lparr>data = [3]\<rparr>] [0, 1, 0]
     = Inr (2, [\<lparr>data = [1, 2]\<rparr>, \<lparr>data = [3]\<rparr>, \<lparr>data = [1, 2, 3, 1, 2]\<rparr>])"
  using concat_empty_single_many [of "[0, 1, 0]" "[\<lparr>data = [1, 2]\<rparr>, \<lparr>data = [3]\<rparr>]" 1]
  by simp

section \<open>Properties of the URL match predicate\<close>

text \<open>
  Claim C8, as stated, fails on the code: with \<open>globToRegex\<close> as the spec describes it,
  \<open>urlMatches("http://host/path", "/path")\<close> is false, also when the parsed URL has the path
  \<open>/path\<close>. Every string pattern is converted to a regular expression before the comparison
  with the full URL and with the path are reached.
\<close>

theorem urlMatches_path_fallback_counterexample:
  "urlMatches (globToRegex (\<lambda>_ _. False)) (\<lambda>_. Some \<lparr>pathname = ''/path''\<rparr>)
      ''http://host/path'' (Some (Text ''/path'')) = Inr False"
  by (simp add: urlMatches_def globToRegex_def plain_def glob_metacharacters_def)

text \<open>
  Claim C8, amended. \<open>urlMatches(u, undefined)\<close> and \<open>urlMatches(u, "")\<close> are true. For every
  other string pattern \<open>t\<close>, with glob metacharacters or without, the result is that of
  the regular expression \<open>globToRegex(t)\<close> tested against the full URL string, whatever
  \<open>globToRegex\<close> is; the parsed URL and its path are not consulted. With \<open>globToRegex\<close> as
  the spec describes it, a pattern \<open>p\<close> without glob metacharacters matches exactly the URL
  string equal to \<open>p\<close>.
\<close>

theorem urlMatches_text_is_glob:
  assumes "t \<noteq> []" and "plain p"
  shows "urlMatches toRegex new_URL u None = Inr True \<and>
         urlMatches toRegex new_URL u (Some (Text [])) = Inr True \<and>
         urlMatches toRegex new_URL u (Some (Text t)) = Inr (toRegex t u) \<and>
         urlMatches (globToRegex meta) new_URL u (Some (Text t)) = Inr (globToRegex meta t u) \<and>
         globToRegex meta p u = (u = p)"
  using assms by (simp add: urlMatches_def globToRegex_def)

theorem urlMatches_text_is_glob_witness:
  "''/other'' \<noteq> [] \<and> plain ''/other'' \<and>
   urlMatches (globToRegex (\<lambda>_ _. True)) (\<lambda>_. Some \<lparr>pathname = ''/path''\<rparr>)
      ''http://host/path'' (Some (Text ''/other'')) = Inr False \<and>
   urlMatches (globToRegex (\<lambda>_ _. True)) (\<lambda>_. Some \<lparr>pathname = ''/path''\<rparr>)
      ''http://host/path'' (Some (Text ''http://host/path'')) = Inr True"
proof -
  have p: "plain ''/other''" "plain ''http://host/path''"
    by (simp_all add: plain_def glob_metacharacters_def)
  from urlMatches_text_is_glob [of "''/other''" "''/other''" "globToRegex (\<lambda>_ _. True)"
      "\<lambda>_. Some \<lparr>pathname = ''/path''\<rparr>" "''http://host/path''" "\<lambda>_ _. True"] p(1)
  have 1: "urlMatches (globToRegex (\<lambda>_ _. True)) (\<lambda>_. Some \<lparr>pathname = ''/path''\<rparr>)
      ''http://host/path'' (Some (Text ''/other'')) = Inr False"
    by (simp add: globToRegex_def)
  from urlMatches_text_is_glob [of "''http://host/path''" "''http://host/path''" "globToRegex (\<lambda>_ _. True)"
      "\<lambda>_. Some \<lparr>pathname = ''/path''\<rparr>" "''http://host/path''" "\<lambda>_ _. True"] p(2)
  have 2: "urlMatches (globToRegex (\<lambda>_ _. True)) (\<lambda>_. Some \<lparr>pathname = ''/path''\<rparr>)
      ''http://host/path'' (Some (Text ''http://host/path'')) = Inr True"
    by (simp add: globToRegex_def)
  from p 1 2 show ?thesis by simp
qed

end
